theory Spec2Isabelle
  imports Main
begin

section \<open>JavaScript values\<close>

text \<open>
  The library is dynamically typed: \<open>run\<close> receives any value as \<open>commands\<close>, the
  constructor any value as \<open>options\<close>, and the code branches on truthiness
  (\<open>if (err)\<close>, \<open>if (!this._privateKey)\<close>) and on strict equality (\<open>code !== 0\<close>).
  Values are therefore kept as a datatype of JavaScript values. Numbers are integers here
  (ports and exit codes); \<open>JBuffer\<close> is a Node Buffer, \<open>JError\<close> an Error object with
  its message.
\<close>

datatype js_value =
    JUndefined
  | JNull
  | JBoolean bool
  | JNumber int
  | JString string
  | JBuffer string
  | JError string
  | JArray "js_value list"
  | JObject "(string \<times> js_value) list"

fun truthy :: "js_value \<Rightarrow> bool" where
  "truthy JUndefined = False"
| "truthy JNull = False"
| "truthy (JBoolean b) = b"
| "truthy (JNumber n) = (n \<noteq> 0)"
| "truthy (JString s) = (s \<noteq> [])"
| "truthy (JBuffer b) = True"
| "truthy (JError m) = True"
| "truthy (JArray xs) = True"
| "truthy (JObject fs) = True"

text \<open>Property read \<open>o.k\<close>: a missing property reads as \<open>undefined\<close>.\<close>

fun get_prop :: "js_value \<Rightarrow> string \<Rightarrow> js_value" where
  "get_prop (JObject fs) k = (case map_of fs k of Some v \<Rightarrow> v | None \<Rightarrow> JUndefined)"
| "get_prop v k = JUndefined"

subsection \<open>The argument validator\<close>

text \<open>
  \<open>_argValidator\<close> comes from the package \<open>@vamship/arg-utils\<close>. Its checks return a
  boolean when called without a message and throw \<open>ArgError(message)\<close> when called with one.
  The boolean part is below; the throwing calls are written out where the code makes them.
  \<open>checkString(v, n)\<close> holds for a string of length at least \<open>n\<close>, \<open>checkNumber(v, n)\<close>
  for a number that is at least \<open>n\<close>, \<open>checkArray\<close> for an array, \<open>checkObject\<close> for an
  object that is neither an array nor \<open>null\<close>.
\<close>

datatype arg_error = ArgError string

fun checkString :: "js_value \<Rightarrow> nat \<Rightarrow> bool" where
  "checkString (JString s) minLength = (minLength \<le> length s)"
| "checkString v minLength = False"

fun checkNumber :: "js_value \<Rightarrow> int \<Rightarrow> bool" where
  "checkNumber (JNumber n) minValue = (minValue \<le> n)"
| "checkNumber v minValue = False"

fun checkArray :: "js_value \<Rightarrow> bool" where
  "checkArray (JArray xs) = True"
| "checkArray v = False"

fun checkObject :: "js_value \<Rightarrow> bool" where
  "checkObject (JObject fs) = True"
| "checkObject (JBuffer b) = True"
| "checkObject (JError m) = True"
| "checkObject v = False"

section \<open>RemoteClient: connection configuration\<close>

record remote_client =
  this_host :: js_value
  this_port :: js_value
  this_username :: js_value
  this_password :: js_value
  this_privateKey :: js_value
  this_privateKeyData :: js_value

text \<open>
  The constructor of \<open>RemoteClient\<close>: validation of \<open>options\<close>, the default port,
  normalisation of an unusable password or key path to \<open>undefined\<close>, and the error
  when neither is left. The key cache starts out \<open>undefined\<close>.
\<close>

definition RemoteClient :: "js_value \<Rightarrow> arg_error + remote_client" where
  "RemoteClient options =
    (if \<not> checkObject options then
       Inl (ArgError ''Invalid client configuration (arg #1)'')
     else if \<not> checkString (get_prop options ''host'') 1 then
       Inl (ArgError ''Invalid host (options.host)'')
     else if \<not> checkString (get_prop options ''username'') 1 then
       Inl (ArgError ''Invalid username (options.username)'')
     else
       let port = (if \<not> checkNumber (get_prop options ''port'') 1
                   then JNumber 22 else get_prop options ''port'');
           privateKey = (if \<not> checkString (get_prop options ''privateKey'') 1
                         then JUndefined else get_prop options ''privateKey'');
           password = (if \<not> checkString (get_prop options ''password'') 1
                       then JUndefined else get_prop options ''password'')
       in if privateKey = JUndefined \<and> password = JUndefined then
            Inl (ArgError (''Invalid password (options.password) or private key ''
                           @ ''(options.privateKey). Must provide at least one.''))
          else
            Inr \<lparr> this_host = get_prop options ''host'',
                  this_port = port,
                  this_username = get_prop options ''username'',
                  this_password = password,
                  this_privateKey = privateKey,
                  this_privateKeyData = JUndefined \<rparr>)"

text \<open>
  The connection options object. A property that was never assigned reads as
  \<open>undefined\<close>, so each optional property is a value that is \<open>JUndefined\<close> until set.
\<close>

record connection_options =
  host :: js_value
  port :: js_value
  username :: js_value
  password :: js_value
  passphrase :: js_value
  privateKey :: js_value

text \<open>
  \<open>fs.readFile(path, callback)\<close> is the only access to durable storage. The file system
  is a function from the path value to the callback's arguments: \<open>Inl message\<close> for
  \<open>callback(err)\<close> with an Error of that message, \<open>Inr bytes\<close> for
  \<open>callback(null, buffer)\<close> (without an encoding Node passes a Buffer).
\<close>

type_synonym file_system = "js_value \<Rightarrow> string + string"

text \<open>
  \<open>getConnectionOptions\<close> run to completion: it returns the client with its cache as the
  call leaves it, the list of paths it read from storage, and how the returned promise
  settles (\<open>Inl err\<close> rejected, \<open>Inr options\<close> fulfilled). In the read callback the code
  has no \<open>return\<close> after \<open>reject(err)\<close>: it goes on to assign \<open>data\<close>, which is
  \<open>undefined\<close> there, to the cache, and its \<open>resolve\<close> comes too late to count.
\<close>

definition getConnectionOptions ::
    "file_system \<Rightarrow> remote_client \<Rightarrow> remote_client \<times> js_value list \<times> (js_value + connection_options)" where
  "getConnectionOptions fs c =
    (let connectionOptions =
           \<lparr> host = this_host c, port = this_port c, username = this_username c,
             password = JUndefined, passphrase = JUndefined, privateKey = JUndefined \<rparr>
     in if \<not> truthy (this_privateKey c) then
          (c, [], Inr (connectionOptions\<lparr>password := this_password c\<rparr>))
        else if truthy (this_privateKeyData c) then
          (c, [], Inr (connectionOptions\<lparr>passphrase := this_password c,
                                          privateKey := this_privateKeyData c\<rparr>))
        else
          (case fs (this_privateKey c) of
             Inl message \<Rightarrow>
               (c\<lparr>this_privateKeyData := JUndefined\<rparr>, [this_privateKey c],
                Inl (JError message))
           | Inr data \<Rightarrow>
               (c\<lparr>this_privateKeyData := JBuffer data\<rparr>, [this_privateKey c],
                Inr (connectionOptions\<lparr>passphrase := this_password c,
                                         privateKey := JBuffer data\<rparr>))))"

section \<open>SshClient: the command loop\<close>

record execution_result =
  command :: js_value
  success :: bool
  exitCode :: js_value
  stdout :: string
  stderr :: string
  error :: js_value

datatype promise = Pending | Fulfilled | Rejected js_value

text \<open>
  One call of the \<open>mapSeries\<close> mapper: the command it closes over, the value
  \<open>client.exec\<close> returned for it (\<open>callNext\<close>, used only for its truthiness) and the
  promise the mapper returned.
\<close>

record iteration =
  it_command :: js_value
  callNext :: bool
  settled :: promise

datatype client_call = Connect connection_options | Exec js_value | End

datatype loop_state = NotStarted | Running | Finished

text \<open>
  The object \<open>execResult\<close> of \<open>run\<close>. Its property \<open>results\<close> starts as an empty array of
  its own and is later pointed at the array \<open>results\<close> of \<open>_runCommandSet\<close>;
  \<open>results_assigned\<close> says which of the two it is.
\<close>

record exec_result =
  commandCount :: nat
  successCount :: nat
  failureCount :: nat
  results_assigned :: bool

text \<open>
  Everything one call of \<open>run\<close> holds once \<open>connect\<close> has been called: the variables
  of the closures of \<open>run\<close> and \<open>_runCommandSet\<close>, the calls made on the ssh2 client so
  far, and the state of the promise \<open>run\<close> returned.
\<close>

record session =
  commands :: "js_value list"
  calls :: "client_call list"
  loop :: loop_state
  iterations :: "iteration list"
  results :: "execution_result list"
  streams :: "nat option list"
  finishMethod :: "nat option"
  execResult :: exec_result
  outcome :: promise

text \<open>
  What the transport and the scheduler can do to a session. A stream is named by the index
  of the result object its listeners close over (the stream passed to the \<open>r\<close>-th
  invocation of a start callback); a start callback by the index of the \<open>exec\<close> call it
  was passed to. \<open>Tick\<close> is the promise scheduler running its queue: bluebird settles
  promises synchronously but runs their continuations later, so other events can come
  between a \<open>resolve\<close> and the next \<open>exec\<close>.
\<close>

datatype event =
    Ready
  | Error js_value
  | Continue
  | ExecCallback nat js_value
  | StreamData nat string
  | StderrData nat string
  | StreamClose nat js_value
  | Tick

definition resolve_at :: "nat \<Rightarrow> iteration list \<Rightarrow> iteration list" where
  "resolve_at n its =
    (if n < length its \<and> settled (its ! n) = Pending
     then its[n := (its ! n)\<lparr>settled := Fulfilled\<rparr>] else its)"

definition reject_at :: "nat \<Rightarrow> js_value \<Rightarrow> iteration list \<Rightarrow> iteration list" where
  "reject_at n err its =
    (if n < length its \<and> settled (its ! n) = Pending
     then its[n := (its ! n)\<lparr>settled := Rejected err\<rparr>] else its)"

text \<open>Settling the promise returned by \<open>run\<close>: only the first settlement counts.\<close>

definition settle :: "promise \<Rightarrow> promise \<Rightarrow> promise" where
  "settle p new = (if p = Pending then new else p)"

definition nonZeroExit :: js_value where
  "nonZeroExit = JError ''Program exited with non zero exit code''"

text \<open>
  The mapper of \<open>mapSeries\<close> for the next command: clear the resume slot, call
  \<open>client.exec\<close> and keep what it returned. \<open>ready_for_next k\<close> is the truthiness of the
  value the transport returns from the \<open>k\<close>-th \<open>exec\<close> call.
\<close>

definition submit :: "(nat \<Rightarrow> bool) \<Rightarrow> session \<Rightarrow> session" where
  "submit ready_for_next s =
    (let k = length (iterations s); cmd = commands s ! k in
     s\<lparr> finishMethod := None,
        calls := calls s @ [Exec cmd],
        iterations := iterations s @
          [\<lparr> it_command = cmd, callNext = ready_for_next k, settled = Pending \<rparr>] \<rparr>)"

text \<open>
  The end of the chain in \<open>run\<close>, whether \<open>mapSeries\<close> was fulfilled or rejected (the
  \<open>catch\<close> of \<open>_runCommandSet\<close> turns a rejection into the results): tally the results,
  point \<open>execResult.results\<close> at them, resolve, and in \<open>finally\<close> resolve again (with
  \<open>undefined\<close>, which no longer counts) and call \<open>client.end()\<close>.
\<close>

definition finish :: "session \<Rightarrow> session" where
  "finish s =
    s\<lparr> execResult := (execResult s)
          \<lparr> successCount := successCount (execResult s) + length (filter success (results s)),
            failureCount := failureCount (execResult s)
                              + length (filter (\<lambda>r. \<not> success r) (results s)),
            results_assigned := True \<rparr>,
       outcome := settle (settle (outcome s) Fulfilled) Fulfilled,
       calls := calls s @ [End],
       loop := Finished \<rparr>"

definition advance :: "(nat \<Rightarrow> bool) \<Rightarrow> session \<Rightarrow> session" where
  "advance ready_for_next s =
    (if length (iterations s) < length (commands s) then submit ready_for_next s
     else finish s)"

text \<open>
  The listeners on the stream of result \<open>r\<close>, if there are any: they exist once the
  start callback has pushed that result and gone on to \<open>stream.on(...)\<close>, and they close
  over the iteration \<open>n\<close> of that callback (its \<open>resolve\<close>, \<open>reject\<close> and \<open>callNext\<close>).
\<close>

definition stream_owner :: "session \<Rightarrow> nat \<Rightarrow> nat option" where
  "stream_owner s r =
    (if r < length (results s) \<and> r < length (streams s) then streams s ! r else None)"

text \<open>
  One event, handled by the listener the code registered for it. An event for which no
  listener exists (a \<open>continue\<close> before \<open>_runCommandSet\<close> ran, a callback of an
  \<open>exec\<close> that was never called, a stream that was never handed over) changes nothing.
  A second \<open>ready\<close>, on which the code would run \<open>_runCommandSet\<close> again, is
  outside this model and left without effect: the contract of the transport below
  excludes it, and what is proved of the events of a session assumes that contract.
\<close>

fun step :: "(nat \<Rightarrow> bool) \<Rightarrow> session \<Rightarrow> event \<Rightarrow> session" where
  "step rfn s Ready =
    (if loop s = NotStarted then s\<lparr>loop := Running\<rparr> else s)"
| "step rfn s (Error err) =
    s\<lparr> calls := calls s @ [End], outcome := settle (outcome s) (Rejected err) \<rparr>"
| "step rfn s Continue =
    (if loop s = NotStarted then s
     else case finishMethod s of
            None \<Rightarrow> s
          | Some n \<Rightarrow> s\<lparr> iterations := resolve_at n (iterations s), finishMethod := None \<rparr>)"
| "step rfn s (ExecCallback n err) =
    (if n < length (iterations s) then
       let result = \<lparr> command = it_command (iterations s ! n), success = True,
                      exitCode = JUndefined, stdout = [], stderr = [],
                      error = JUndefined \<rparr>
       in if truthy err then
            s\<lparr> results := results s @ [result\<lparr>success := False, error := err\<rparr>],
               streams := streams s @ [None],
               iterations := reject_at n err (iterations s) \<rparr>
          else
            s\<lparr> results := results s @ [result], streams := streams s @ [Some n] \<rparr>
     else s)"
| "step rfn s (StreamData r data) =
    (case stream_owner s r of
       None \<Rightarrow> s
     | Some n \<Rightarrow>
         s\<lparr> results := (results s)[r := (results s ! r)\<lparr>stdout := stdout (results s ! r) @ data\<rparr>] \<rparr>)"
| "step rfn s (StderrData r data) =
    (case stream_owner s r of
       None \<Rightarrow> s
     | Some n \<Rightarrow>
         s\<lparr> results := (results s)[r := (results s ! r)\<lparr>stderr := stderr (results s ! r) @ data\<rparr>] \<rparr>)"
| "step rfn s (StreamClose r code) =
    (case stream_owner s r of
       None \<Rightarrow> s
     | Some n \<Rightarrow>
         if code \<noteq> JNumber 0 then
           s\<lparr> results := (results s)[r := (results s ! r)
                  \<lparr>exitCode := code, error := nonZeroExit, success := False\<rparr>],
              iterations := reject_at n nonZeroExit (iterations s) \<rparr>
         else if callNext (iterations s ! n) then
           s\<lparr> results := (results s)[r := (results s ! r)\<lparr>exitCode := code\<rparr>],
              iterations := resolve_at n (iterations s) \<rparr>
         else
           s\<lparr> results := (results s)[r := (results s ! r)\<lparr>exitCode := code\<rparr>],
              finishMethod := Some n \<rparr>)"
| "step rfn s Tick =
    (if loop s \<noteq> Running then s
     else if iterations s = [] then advance rfn s
     else case settled (last (iterations s)) of
            Pending \<Rightarrow> s
          | Fulfilled \<Rightarrow> advance rfn s
          | Rejected err \<Rightarrow> finish s)"

definition run_events :: "(nat \<Rightarrow> bool) \<Rightarrow> session \<Rightarrow> event list \<Rightarrow> session" where
  "run_events rfn s evs = foldl (step rfn) s evs"


section \<open>SshClient.run\<close>

text \<open>
  The first lines of \<open>run\<close>: a string of length at least one is wrapped into a
  one-element array, then anything that is not an array throws. The elements of the array
  are not inspected.
\<close>

fun elements :: "js_value \<Rightarrow> js_value list" where
  "elements (JArray xs) = xs"
| "elements v = []"

definition worklist :: "js_value \<Rightarrow> arg_error + js_value list" where
  "worklist arg =
    (let arr = (if checkString arg 1 then JArray [arg] else arg)
     in if \<not> checkArray arr then Inl (ArgError ''Invalid command(s) (arg #1)'')
        else Inr (elements arr))"

text \<open>
  The state \<open>run\<close> has built when it asks for the connection options (\<open>execResult\<close>
  exists, no ssh2 client yet), and the state after \<open>new Client()\<close>, the registration
  of the two listeners and \<open>connect(connOpts)\<close>.
\<close>

definition initial :: "js_value list \<Rightarrow> session" where
  "initial cmds =
    \<lparr> commands = cmds, calls = [], loop = NotStarted, iterations = [], results = [],
      streams = [], finishMethod = None,
      execResult = \<lparr> commandCount = length cmds, successCount = 0, failureCount = 0,
                     results_assigned = False \<rparr>,
      outcome = Pending \<rparr>"

definition connect :: "connection_options \<Rightarrow> js_value list \<Rightarrow> session" where
  "connect connOpts cmds = (initial cmds)\<lparr>calls := [Connect connOpts]\<rparr>"

text \<open>
  \<open>run\<close> against a file system, a transport (the values its \<open>exec\<close> returns and the
  events it delivers) and the scheduler. \<open>Inl\<close> is the synchronous throw. Otherwise a
  promise is returned, and the result is the client (with its key cache), the paths read
  from storage and the session; when the connection options are rejected, so is the
  promise, and no ssh2 client is ever constructed, so no event can arrive.
\<close>

definition run ::
    "file_system \<Rightarrow> (nat \<Rightarrow> bool) \<Rightarrow> remote_client \<Rightarrow> js_value \<Rightarrow> event list
       \<Rightarrow> arg_error + (remote_client \<times> js_value list \<times> session)" where
  "run fs rfn c arg evs =
    (case worklist arg of
       Inl e \<Rightarrow> Inl e
     | Inr cmds \<Rightarrow>
         (case getConnectionOptions fs c of
            (c', reads, Inl err) \<Rightarrow> Inr (c', reads, (initial cmds)\<lparr>outcome := Rejected err\<rparr>)
          | (c', reads, Inr connOpts) \<Rightarrow>
              Inr (c', reads, run_events rfn (connect connOpts cmds) evs)))"

text \<open>
  The \<open>results\<close> property of the summary as a caller reads it: the array of
  \<open>_runCommandSet\<close> once it has been assigned, the initial empty array before.
\<close>

definition summary_results :: "session \<Rightarrow> execution_result list" where
  "summary_results s = (if results_assigned (execResult s) then results s else [])"

definition exec_log :: "session \<Rightarrow> js_value list" where
  "exec_log s = concat (map (\<lambda>c. case c of Exec cmd \<Rightarrow> [cmd] | _ \<Rightarrow> []) (calls s))"

definition end_count :: "session \<Rightarrow> nat" where
  "end_count s = length (filter (\<lambda>c. c = End) (calls s))"

section \<open>The transport's side of the interface\<close>

text \<open>
  What is assumed of the ssh2 client, as of any Node event emitter of its kind: it emits
  \<open>ready\<close> at most once, invokes the callback passed to an \<open>exec\<close> call at most once,
  and a stream emits \<open>close\<close> at most once.
\<close>

fun callbacks :: "event list \<Rightarrow> nat list" where
  "callbacks [] = []"
| "callbacks (ExecCallback n err # evs) = n # callbacks evs"
| "callbacks (e # evs) = callbacks evs"

fun closes :: "event list \<Rightarrow> nat list" where
  "closes [] = []"
| "closes (StreamClose r code # evs) = r # closes evs"
| "closes (e # evs) = closes evs"

fun is_error :: "event \<Rightarrow> bool" where
  "is_error (Error err) = True"
| "is_error e = False"

definition transport_contract :: "event list \<Rightarrow> bool" where
  "transport_contract evs \<longleftrightarrow>
     distinct (callbacks evs) \<and> distinct (closes evs) \<and> length (filter (\<lambda>e. e = Ready) evs) \<le> 1"

text \<open>
  A transport that serves every command it is given. For each command it either fails to
  start it, or starts it, delivers output and closes the stream with an exit code; when
  it had asked the engine to wait it emits \<open>continue\<close> after that. The scheduler runs
  after each command.
\<close>

datatype chunk = Stdout string | Stderr string


fun output_event :: "nat \<Rightarrow> chunk \<Rightarrow> event" where
  "output_event k (Stdout data) = StreamData k data"
| "output_event k (Stderr data) = StderrData k data"






text \<open>Sequential resolutions of the connection options, each against the storage of its time.\<close>

fun resolutions ::
    "file_system list \<Rightarrow> remote_client
       \<Rightarrow> remote_client \<times> (js_value list \<times> (js_value + connection_options)) list" where
  "resolutions [] c = (c, [])"
| "resolutions (fs # fss) c =
     (case getConnectionOptions fs c of
        (c', reads, res) \<Rightarrow>
          (case resolutions fss c' of (c'', rest) \<Rightarrow> (c'', (reads, res) # rest)))"


section \<open>Auxiliary notions for the proofs\<close>

text \<open>
  The key cache of a client is either empty or holds the bytes that one of the given file
  systems returned for the client's key path.
\<close>

definition cache_from :: "file_system set \<Rightarrow> remote_client \<Rightarrow> bool" where
  "cache_from F c \<longleftrightarrow>
     this_privateKeyData c = JUndefined \<or>
     (\<exists>fs\<in>F. \<exists>d. fs (this_privateKey c) = Inr d \<and> this_privateKeyData c = JBuffer d)"


text \<open>
  What holds of a session after any events at all: the iterations are the calls of the
  mapper for a prefix of the commands, in order, each with the value \<open>exec\<close> returned for
  it; the \<open>exec\<close> calls on the client are exactly those; and stream listeners belong to
  iterations that exist.
\<close>

definition inv_basic :: "(nat \<Rightarrow> bool) \<Rightarrow> session \<Rightarrow> bool" where
  "inv_basic rfn s \<longleftrightarrow>
     length (streams s) = length (results s) \<and>
     length (iterations s) \<le> length (commands s) \<and>
     map it_command (iterations s) = take (length (iterations s)) (commands s) \<and>
     map callNext (iterations s) = map rfn [0..<length (iterations s)] \<and>
     exec_log s = map it_command (iterations s) \<and>
     commandCount (execResult s) = length (commands s) \<and>
     (loop s = NotStarted \<longrightarrow> iterations s = []) \<and>
     (iterations s = [] \<longrightarrow> results s = [] \<and> finishMethod s = None) \<and>
     (\<forall>r<length (streams s). \<forall>n. streams s ! r = Some n \<longrightarrow> n < length (iterations s))"

text \<open>
  What holds in addition when the transport keeps its contract. Results follow the
  iterations one to one; every iteration but the last is fulfilled, and a fulfilled one has
  a successful result with exit code 0 whose stream has closed; a failed result belongs to
  a rejected iteration; a stream that has not closed belongs to a pending iteration; and an
  installed resume action belongs to the last iteration, whose stream has closed with 0.
\<close>

definition inv_loop :: "event list \<Rightarrow> session \<Rightarrow> bool" where
  "inv_loop t s \<longleftrightarrow>
     length (results s) \<le> length (iterations s) \<and>
     (\<forall>r<length (results s).
        r \<in> set (callbacks t) \<and>
        command (results s ! r) = it_command (iterations s ! r) \<and>
        (streams s ! r = None \<or> streams s ! r = Some r)) \<and>
     (\<forall>n. Suc n < length (iterations s) \<longrightarrow> settled (iterations s ! n) = Fulfilled) \<and>
     (\<forall>n<length (iterations s). settled (iterations s ! n) \<noteq> Pending \<longrightarrow> n < length (results s)) \<and>
     (\<forall>n<length (results s). settled (iterations s ! n) = Fulfilled \<longrightarrow>
        success (results s ! n) \<and> exitCode (results s ! n) = JNumber 0 \<and>
        streams s ! n = Some n \<and> n \<in> set (closes t)) \<and>
     (\<forall>r<length (results s). \<not> success (results s ! r) \<longrightarrow>
        (\<exists>err. settled (iterations s ! r) = Rejected err)) \<and>
     (\<forall>r<length (results s). streams s ! r = Some r \<longrightarrow> r \<notin> set (closes t) \<longrightarrow>
        success (results s ! r) \<and> settled (iterations s ! r) = Pending) \<and>
     (\<forall>n. finishMethod s = Some n \<longrightarrow>
        Suc n = length (iterations s) \<and> n < length (results s) \<and>
        success (results s ! n) \<and> exitCode (results s ! n) = JNumber 0 \<and>
        streams s ! n = Some n \<and> n \<in> set (closes t))"

text \<open>The number of \<open>error\<close> events the transport has emitted.\<close>

definition error_count :: "event list \<Rightarrow> nat" where
  "error_count t = length (filter is_error t)"

text \<open>
  The bookkeeping of \<open>run\<close>: nothing is tallied before the loop has finished; once it
  has, the tallies count the results, every result has its iteration and every stream has
  closed; a rejection comes from an \<open>error\<close> event; and \<open>end()\<close> has been called once per
  \<open>error\<close> event and once more when the loop has finished.
\<close>

definition inv_final :: "event list \<Rightarrow> session \<Rightarrow> bool" where
  "inv_final t s \<longleftrightarrow>
     (loop s \<noteq> Finished \<longrightarrow>
        successCount (execResult s) = 0 \<and> failureCount (execResult s) = 0 \<and>
        \<not> results_assigned (execResult s) \<and> outcome s \<noteq> Fulfilled) \<and>
     (loop s = Finished \<longrightarrow>
        results_assigned (execResult s) \<and> outcome s \<noteq> Pending \<and>
        successCount (execResult s) = length (filter success (results s)) \<and>
        failureCount (execResult s) = length (filter (\<lambda>r. \<not> success r) (results s)) \<and>
        length (results s) = length (iterations s) \<and>
        (\<forall>r<length (results s). streams s ! r = Some r \<longrightarrow> r \<in> set (closes t))) \<and>
     (\<forall>err. outcome s = Rejected err \<longrightarrow> Error err \<in> set t) \<and>
     end_count s = error_count t + (if loop s = Finished then 1 else 0) \<and>
     (error_count t = 0 \<longrightarrow> loop s = Finished \<longrightarrow> outcome s = Fulfilled)"

text \<open>
  A \<open>continue\<close> notification has been observed after the stream of command \<open>i\<close>
  closed with exit code 0: the events from that close on contain a \<open>continue\<close>.
\<close>

definition continue_after_close :: "nat \<Rightarrow> event list \<Rightarrow> bool" where
  "continue_after_close i t \<longleftrightarrow>
     Continue \<in> set (dropWhile (\<lambda>e. e \<noteq> StreamClose i (JNumber 0)) t)"

text \<open>
  Where a resume action comes from: it is installed only by a close with exit code 0, and
  an iteration whose \<open>exec\<close> asked to wait is fulfilled only by a \<open>continue\<close> after
  that close.
\<close>

definition inv_resume :: "event list \<Rightarrow> session \<Rightarrow> bool" where
  "inv_resume t s \<longleftrightarrow>
     (\<forall>n. finishMethod s = Some n \<longrightarrow> StreamClose n (JNumber 0) \<in> set t) \<and>
     (\<forall>n<length (iterations s).
        settled (iterations s ! n) = Fulfilled \<and> \<not> callNext (iterations s ! n)
          \<longrightarrow> continue_after_close n t)"





text \<open>
  A bound on the number of awaited events still to come before the loop has finished: for
  the last iteration the start callback, the close and the \<open>continue\<close> (\<open>current\<close>), then
  four for each command not yet submitted, and the scheduler's last run.
\<close>

definition current :: "session \<Rightarrow> nat" where
  "current s =
    (if iterations s = [] then 0
     else case settled (last (iterations s)) of
            Pending \<Rightarrow>
              (if length (results s) < length (iterations s) then 3
               else if finishMethod s = None then 2 else 1)
          | Fulfilled \<Rightarrow> 0
          | Rejected err \<Rightarrow> 0)"

definition remaining :: "session \<Rightarrow> nat" where
  "remaining s =
    (case loop s of
       NotStarted \<Rightarrow> 2 + 4 * length (commands s)
     | Running \<Rightarrow> 1 + 4 * (length (commands s) - length (iterations s)) + current s
     | Finished \<Rightarrow> 0)"

section \<open>Basic facts\<close>

lemma run_events_Nil [simp]: "run_events rfn s [] = s"
  by (simp add: run_events_def)

lemma run_events_Cons [simp]: "run_events rfn s (e # evs) = run_events rfn (step rfn s e) evs"
  by (simp add: run_events_def)

lemma run_events_append: "run_events rfn s (xs @ ys) = run_events rfn (run_events rfn s xs) ys"
  by (simp add: run_events_def)

lemma run_events_snoc: "run_events rfn s (xs @ [e]) = step rfn (run_events rfn s xs) e"
  by (simp add: run_events_def)


lemma loop_stays_finished: "loop s = Finished \<Longrightarrow> loop (step rfn s e) = Finished"
  by (cases e) (auto simp: Let_def split: option.splits)

section \<open>Invariants of a session\<close>

lemma length_resolve_at [simp]: "length (resolve_at n its) = length its"
  by (simp add: resolve_at_def)

lemma length_reject_at [simp]: "length (reject_at n err its) = length its"
  by (simp add: reject_at_def)

lemma map_it_command_resolve_at [simp]: "map it_command (resolve_at n its) = map it_command its"
  by (simp add: resolve_at_def map_update list_update_same_conv)

lemma map_it_command_reject_at [simp]: "map it_command (reject_at n err its) = map it_command its"
  by (simp add: reject_at_def map_update list_update_same_conv)

lemma map_callNext_resolve_at [simp]: "map callNext (resolve_at n its) = map callNext its"
  by (simp add: resolve_at_def map_update list_update_same_conv)

lemma map_callNext_reject_at [simp]: "map callNext (reject_at n err its) = map callNext its"
  by (simp add: reject_at_def map_update list_update_same_conv)

lemma resolve_at_Nil_iff [simp]: "resolve_at n its = [] \<longleftrightarrow> its = []"
  by (simp add: resolve_at_def)

lemma reject_at_Nil_iff [simp]: "reject_at n err its = [] \<longleftrightarrow> its = []"
  by (simp add: reject_at_def)

lemma exec_log_simps [simp]:
  "exec_log (s\<lparr>calls := calls s @ [Exec cmd]\<rparr>) = exec_log s @ [cmd]"
  "exec_log (s\<lparr>calls := calls s @ [End]\<rparr>) = exec_log s"
  by (simp_all add: exec_log_def)

lemma inv_basic_connect: "inv_basic rfn (connect connOpts cmds)"
  by (simp add: inv_basic_def connect_def initial_def exec_log_def)

lemma inv_basic_step:
  assumes "inv_basic rfn s"
  shows "inv_basic rfn (step rfn s e)"
proof (cases e)
  case Ready
  with assms show ?thesis by (auto simp: inv_basic_def exec_log_def)
next
  case (Error err)
  with assms show ?thesis by (auto simp: inv_basic_def exec_log_def)
next
  case Continue
  with assms show ?thesis
    by (auto simp: inv_basic_def exec_log_def split: option.splits)
next
  case (ExecCallback n err)
  with assms show ?thesis
    by (auto simp: inv_basic_def exec_log_def Let_def nth_append)
next
  case (StreamData r data)
  with assms show ?thesis
    by (auto simp: inv_basic_def exec_log_def split: option.splits)
next
  case (StderrData r data)
  with assms show ?thesis
    by (auto simp: inv_basic_def exec_log_def split: option.splits)
next
  case (StreamClose r code)
  with assms show ?thesis
    by (auto simp: inv_basic_def exec_log_def stream_owner_def split: option.splits)
next
  case Tick
  with assms show ?thesis
    by (auto simp: inv_basic_def exec_log_def advance_def submit_def finish_def Let_def
                   take_Suc_conv_app_nth nth_append
             split: promise.splits)
qed


lemma callbacks_append [simp]: "callbacks (t @ u) = callbacks t @ callbacks u"
  by (induction t rule: callbacks.induct) simp_all

lemma closes_append [simp]: "closes (t @ u) = closes t @ closes u"
  by (induction t rule: closes.induct) simp_all

lemma transport_contract_snoc:
  assumes "transport_contract (t @ [e])"
  shows "transport_contract t"
    and "\<And>n err. e = ExecCallback n err \<Longrightarrow> n \<notin> set (callbacks t)"
    and "\<And>r code. e = StreamClose r code \<Longrightarrow> r \<notin> set (closes t)"
  using assms by (auto simp: transport_contract_def)

lemma nth_resolve_at:
  "m < length its \<Longrightarrow>
     settled (resolve_at n its ! m) =
       (if m = n \<and> settled (its ! n) = Pending then Fulfilled else settled (its ! m)) \<and>
     it_command (resolve_at n its ! m) = it_command (its ! m) \<and>
     callNext (resolve_at n its ! m) = callNext (its ! m)"
  by (auto simp: resolve_at_def nth_list_update)

lemma nth_reject_at:
  "m < length its \<Longrightarrow>
     settled (reject_at n err its ! m) =
       (if m = n \<and> settled (its ! n) = Pending then Rejected err else settled (its ! m)) \<and>
     it_command (reject_at n err its ! m) = it_command (its ! m) \<and>
     callNext (reject_at n err its ! m) = callNext (its ! m)"
  by (auto simp: reject_at_def nth_list_update)

lemma inv_loop_connect: "inv_loop [] (connect connOpts cmds)"
  by (simp add: inv_loop_def connect_def initial_def)

lemma nth_update_same_field:
  assumes "\<And>x. f (g x) = f x"
  shows "f (xs[r := g (xs ! r)] ! m) = f (xs ! m)"
proof (cases "r < length xs \<and> m = r")
  case True
  then show ?thesis by (simp add: assms)
next
  case False
  then show ?thesis by (cases "r < length xs") (auto simp: list_update_beyond)
qed

lemma nth_update_stdout [simp]:
  "success (xs[r := (xs ! r)\<lparr>stdout := v\<rparr>] ! m) = success (xs ! m)"
  "command (xs[r := (xs ! r)\<lparr>stdout := v\<rparr>] ! m) = command (xs ! m)"
  "exitCode (xs[r := (xs ! r)\<lparr>stdout := v\<rparr>] ! m) = exitCode (xs ! m)"
  "error (xs[r := (xs ! r)\<lparr>stdout := v\<rparr>] ! m) = error (xs ! m)"
  "stderr (xs[r := (xs ! r)\<lparr>stdout := v\<rparr>] ! m) = stderr (xs ! m)"
  using nth_update_same_field [of success "\<lambda>x. x\<lparr>stdout := v\<rparr>" xs r m]
    nth_update_same_field [of command "\<lambda>x. x\<lparr>stdout := v\<rparr>" xs r m]
    nth_update_same_field [of exitCode "\<lambda>x. x\<lparr>stdout := v\<rparr>" xs r m]
    nth_update_same_field [of error "\<lambda>x. x\<lparr>stdout := v\<rparr>" xs r m]
    nth_update_same_field [of stderr "\<lambda>x. x\<lparr>stdout := v\<rparr>" xs r m]
  by simp_all

lemma nth_update_stderr [simp]:
  "success (xs[r := (xs ! r)\<lparr>stderr := v\<rparr>] ! m) = success (xs ! m)"
  "command (xs[r := (xs ! r)\<lparr>stderr := v\<rparr>] ! m) = command (xs ! m)"
  "exitCode (xs[r := (xs ! r)\<lparr>stderr := v\<rparr>] ! m) = exitCode (xs ! m)"
  "error (xs[r := (xs ! r)\<lparr>stderr := v\<rparr>] ! m) = error (xs ! m)"
  "stdout (xs[r := (xs ! r)\<lparr>stderr := v\<rparr>] ! m) = stdout (xs ! m)"
  using nth_update_same_field [of success "\<lambda>x. x\<lparr>stderr := v\<rparr>" xs r m]
    nth_update_same_field [of command "\<lambda>x. x\<lparr>stderr := v\<rparr>" xs r m]
    nth_update_same_field [of exitCode "\<lambda>x. x\<lparr>stderr := v\<rparr>" xs r m]
    nth_update_same_field [of error "\<lambda>x. x\<lparr>stderr := v\<rparr>" xs r m]
    nth_update_same_field [of stdout "\<lambda>x. x\<lparr>stderr := v\<rparr>" xs r m]
  by simp_all

lemma inv_loop_cong:
  assumes "results s' = results s" "iterations s' = iterations s" "streams s' = streams s"
    "finishMethod s' = finishMethod s" "callbacks t' = callbacks t" "closes t' = closes t"
  shows "inv_loop t' s' = inv_loop t s"
  unfolding inv_loop_def assms ..

lemma inv_loop_Ready:
  assumes "inv_loop t s"
  shows "inv_loop (t @ [Ready]) (step rfn s Ready)"
  using assms by (subst inv_loop_cong [of _ s _ t]) simp_all

lemma inv_loop_Error:
  assumes "inv_loop t s"
  shows "inv_loop (t @ [Error err]) (step rfn s (Error err))"
  using assms by (subst inv_loop_cong [of _ s _ t]) simp_all


lemma inv_loop_StreamData:
  assumes "inv_loop t s"
  shows "inv_loop (t @ [StreamData r data]) (step rfn s (StreamData r data))"
proof (cases "stream_owner s r")
  case None
  with assms show ?thesis by (subst inv_loop_cong [of _ s _ t]) simp_all
next
  case (Some n)
  have "inv_loop (t @ [StreamData r data])
          (s\<lparr>results := (results s)[r := (results s ! r)\<lparr>stdout := stdout (results s ! r) @ data\<rparr>]\<rparr>)
        = inv_loop t s"
    unfolding inv_loop_def by simp
  with Some assms show ?thesis by simp
qed

lemma inv_loop_StderrData:
  assumes "inv_loop t s"
  shows "inv_loop (t @ [StderrData r data]) (step rfn s (StderrData r data))"
proof (cases "stream_owner s r")
  case None
  with assms show ?thesis by (subst inv_loop_cong [of _ s _ t]) simp_all
next
  case (Some n)
  have "inv_loop (t @ [StderrData r data])
          (s\<lparr>results := (results s)[r := (results s ! r)\<lparr>stderr := stderr (results s ! r) @ data\<rparr>]\<rparr>)
        = inv_loop t s"
    unfolding inv_loop_def by simp
  with Some assms show ?thesis by simp
qed

lemma inv_loopD:
  assumes "inv_loop t s"
  shows "length (results s) \<le> length (iterations s)"
    and "\<And>r. r < length (results s) \<Longrightarrow> r \<in> set (callbacks t)"
    and "\<And>r. r < length (results s) \<Longrightarrow> command (results s ! r) = it_command (iterations s ! r)"
    and "\<And>r. r < length (results s) \<Longrightarrow> streams s ! r = None \<or> streams s ! r = Some r"
    and "\<And>n. Suc n < length (iterations s) \<Longrightarrow> settled (iterations s ! n) = Fulfilled"
    and "\<And>n. n < length (iterations s) \<Longrightarrow> settled (iterations s ! n) \<noteq> Pending \<Longrightarrow> n < length (results s)"
    and "\<And>n. n < length (results s) \<Longrightarrow> settled (iterations s ! n) = Fulfilled \<Longrightarrow>
           success (results s ! n) \<and> exitCode (results s ! n) = JNumber 0 \<and>
           streams s ! n = Some n \<and> n \<in> set (closes t)"
    and "\<And>r. r < length (results s) \<Longrightarrow> \<not> success (results s ! r) \<Longrightarrow>
           \<exists>err. settled (iterations s ! r) = Rejected err"
    and "\<And>r. r < length (results s) \<Longrightarrow> streams s ! r = Some r \<Longrightarrow> r \<notin> set (closes t) \<Longrightarrow>
           success (results s ! r) \<and> settled (iterations s ! r) = Pending"
    and "\<And>n. finishMethod s = Some n \<Longrightarrow>
           Suc n = length (iterations s) \<and> n < length (results s) \<and>
           success (results s ! n) \<and> exitCode (results s ! n) = JNumber 0 \<and>
           streams s ! n = Some n \<and> n \<in> set (closes t)"
  using assms unfolding inv_loop_def by blast+

lemma inv_loop_mono:
  assumes "inv_loop t s" and "set (callbacks t) \<subseteq> set (callbacks t')"
    and "set (closes t) \<subseteq> set (closes t')"
  shows "inv_loop t' s"
  using assms unfolding inv_loop_def by blast

lemma callback_shape:
  assumes inv: "inv_loop t s" and n: "n < length (iterations s)"
    and new: "n \<notin> set (callbacks t)"
  shows "n = length (results s)" and "length (iterations s) = Suc n"
    and "settled (iterations s ! n) = Pending"
proof -
  note D = inv_loopD [OF inv]
  have a: "\<not> n < length (results s)"
    using D(2) new by blast
  with D(6) [OF n] show p: "settled (iterations s ! n) = Pending"
    by blast
  with D(5) [of n] n show l: "length (iterations s) = Suc n"
    by (cases "Suc n < length (iterations s)") auto
  show "n = length (results s)"
  proof (rule ccontr)
    assume "n \<noteq> length (results s)"
    with a have lt: "length (results s) < n" by simp
    with l have "Suc (length (results s)) < length (iterations s)" by simp
    from D(5) [OF this] have "settled (iterations s ! length (results s)) \<noteq> Pending"
      by simp
    from D(6) [OF _ this] lt n show False by simp
  qed
qed

lemma inv_loop_ExecCallback:
  assumes inv: "inv_loop t s" and b: "inv_basic rfn s" and new: "n \<notin> set (callbacks t)"
  shows "inv_loop (t @ [ExecCallback n err]) (step rfn s (ExecCallback n err))"
proof (cases "n < length (iterations s)")
  case False
  have "inv_loop (t @ [ExecCallback n err]) s"
    by (rule inv_loop_mono [OF inv]) auto
  with False show ?thesis by simp
next
  case True
  note D = inv_loopD [OF inv]
  note sh = callback_shape [OF inv True new]
  from b have ls: "length (streams s) = length (results s)"
    by (simp add: inv_basic_def)
  define s' where "s' = step rfn s (ExecCallback n err)"
  define res where "res = \<lparr> command = it_command (iterations s ! n), success = True,
              exitCode = JUndefined, stdout = [], stderr = [], error = JUndefined \<rparr>"
  have fm: "finishMethod s' = finishMethod s"
    using True by (simp add: s'_def Let_def)
  have rs: "results s' = results s @ [if truthy err then res\<lparr>success := False, error := err\<rparr> else res]"
    using True by (simp add: s'_def Let_def res_def)
  have st: "streams s' = streams s @ [if truthy err then None else Some n]"
    using True by (simp add: s'_def Let_def)
  have it: "iterations s' = (if truthy err then reject_at n err (iterations s) else iterations s)"
    using True by (simp add: s'_def Let_def)
  have li: "length (iterations s') = Suc n" using it sh(2) by simp
  have lr: "length (results s') = Suc n" using rs sh(1) by simp
  have seti: "settled (iterations s' ! m) =
      (if m = n \<and> truthy err then Rejected err else settled (iterations s ! m))"
    if "m < Suc n" for m
    using that it sh(2,3) by (simp add: nth_reject_at)
  have cmdi: "it_command (iterations s' ! m) = it_command (iterations s ! m)"
    if "m < Suc n" for m
    using that it sh(2) by (simp add: nth_reject_at)
  have old: "results s' ! r = results s ! r" "streams s' ! r = streams s ! r"
    if "r < n" for r
    using that rs st sh(1) ls by (simp_all add: nth_append)
  have new_r: "results s' ! n = (if truthy err then res\<lparr>success := False, error := err\<rparr> else res)"
    "streams s' ! n = (if truthy err then None else Some n)"
    using rs st sh(1) ls by (simp_all add: nth_append)
  have "inv_loop (t @ [ExecCallback n err]) s'"
    unfolding inv_loop_def
    apply (intro conjI allI impI)
    subgoal using li lr by simp
    subgoal for r using D(2) [of r] lr sh(1) by (cases "r = n") auto
    subgoal for r using D(3) [of r] lr sh(1) old [of r] new_r cmdi [of r]
      by (cases "r = n") (auto simp: res_def split: if_splits)
    subgoal for r using D(4) [of r] lr sh(1) old [of r] new_r
      by (cases "r = n") auto
    subgoal for m using D(5) [of m] li sh(2) seti [of m] by auto
    subgoal for m using li lr by simp
    subgoal for m using D(7) [of m] lr sh(1,3) seti [of m] old [of m]
      by (cases "m = n") (auto split: if_splits)
    subgoal for m using D(7) [of m] lr sh(1,3) seti [of m] old [of m]
      by (cases "m = n") (auto split: if_splits)
    subgoal for m using D(7) [of m] lr sh(1,3) seti [of m] old [of m]
      by (cases "m = n") (auto split: if_splits)
    subgoal for m using D(7) [of m] lr sh(1,3) seti [of m] old [of m]
      by (cases "m = n") (auto split: if_splits)
    subgoal for r using D(8) [of r] lr sh(1) seti [of r] old [of r] new_r
      by (cases "r = n") (auto simp: res_def split: if_splits)
    subgoal for r using D(9) [of r] lr sh(1,3) seti [of r] old [of r] new_r
      by (cases "r = n") (auto simp: res_def split: if_splits)
    subgoal for r using D(9) [of r] lr sh(1,3) seti [of r] old [of r] new_r
      by (cases "r = n") (auto simp: res_def split: if_splits)
    subgoal for m using D(10) [of m] fm sh(1,2) by auto
    subgoal for m using D(10) [of m] fm sh(1,2) by auto
    subgoal for m using D(10) [of m] fm sh(1,2) by auto
    subgoal for m using D(10) [of m] fm sh(1,2) by auto
    subgoal for m using D(10) [of m] fm sh(1,2) by auto
    subgoal for m using D(10) [of m] fm sh(1,2) by auto
    done
  then show ?thesis by (simp add: s'_def)
qed

lemma close_shape:
  assumes inv: "inv_loop t s" and own: "stream_owner s r = Some n"
    and new: "r \<notin> set (closes t)"
  shows "n = r" and "length (results s) = Suc r" and "length (iterations s) = Suc r"
    and "settled (iterations s ! r) = Pending" and "success (results s ! r)"
    and "streams s ! r = Some r"
proof -
  note D = inv_loopD [OF inv]
  from own have r: "r < length (results s)" and st: "streams s ! r = Some n"
    by (simp_all add: stream_owner_def split: if_splits)
  from D(4) [OF r] st show n: "n = r" by simp
  with st show st': "streams s ! r = Some r" by simp
  from D(9) [OF r st' new] show p: "settled (iterations s ! r) = Pending"
    and "success (results s ! r)" by simp_all
  from D(5) [of r] p have "\<not> Suc r < length (iterations s)" by auto
  with r D(1) show "length (iterations s) = Suc r" "length (results s) = Suc r"
    by simp_all
qed

lemma inv_loop_StreamClose:
  assumes inv: "inv_loop t s" and new: "r \<notin> set (closes t)"
  shows "inv_loop (t @ [StreamClose r code]) (step rfn s (StreamClose r code))"
proof (cases "stream_owner s r")
  case None
  have "inv_loop (t @ [StreamClose r code]) s"
    by (rule inv_loop_mono [OF inv]) auto
  with None show ?thesis by simp
next
  case (Some n)
  note D = inv_loopD [OF inv]
  note sh = close_shape [OF inv Some new]
  define s' where "s' = step rfn s (StreamClose r code)"
  define upd where "upd = (\<lambda>x::execution_result. if code \<noteq> JNumber 0
      then x\<lparr>exitCode := code, error := nonZeroExit, success := False\<rparr>
      else x\<lparr>exitCode := code\<rparr>)"
  have rs: "results s' = (results s)[r := upd (results s ! r)]"
    using Some by (simp add: s'_def upd_def)
  have st: "streams s' = streams s"
    using Some by (simp add: s'_def)
  have it: "iterations s' =
      (if code \<noteq> JNumber 0 then reject_at r nonZeroExit (iterations s)
       else if callNext (iterations s ! r) then resolve_at r (iterations s)
       else iterations s)"
    using Some sh(1) by (simp add: s'_def)
  have fm: "finishMethod s' =
      (if code = JNumber 0 \<and> \<not> callNext (iterations s ! r) then Some r else finishMethod s)"
    using Some sh(1) by (simp add: s'_def)
  have li: "length (iterations s') = Suc r" using it sh(3) by simp
  have lr: "length (results s') = Suc r" using rs sh(2) by simp
  have seti: "settled (iterations s' ! m) =
      (if m = r then (if code \<noteq> JNumber 0 then Rejected nonZeroExit
                      else if callNext (iterations s ! r) then Fulfilled else Pending)
       else settled (iterations s ! m))"
    if "m < Suc r" for m
    using that it sh(3,4) by (simp add: nth_reject_at nth_resolve_at)
  have cmdi: "it_command (iterations s' ! m) = it_command (iterations s ! m)"
    if "m < Suc r" for m
    using that it sh(3) by (simp add: nth_reject_at nth_resolve_at)
  have old: "results s' ! m = results s ! m" if "m < r" for m
    using that rs by simp
  have new_r: "results s' ! r = upd (results s ! r)"
    using rs sh(2) by simp
  have updf: "command (upd x) = command x"
    "success (upd x) = (code = JNumber 0 \<and> success x)"
    "code = JNumber 0 \<Longrightarrow> exitCode (upd x) = JNumber 0" for x
    by (simp_all add: upd_def)
  have nofm: "finishMethod s = None"
  proof (cases "finishMethod s")
    case (Some m)
    from D(10) [OF Some] sh(3) new show ?thesis by auto
  qed simp
  have "inv_loop (t @ [StreamClose r code]) s'"
    unfolding inv_loop_def
    apply (intro conjI allI impI)
    subgoal using li lr by simp
    subgoal for m using D(2) [of m] lr sh(2) by simp
    subgoal for m using D(3) [of m] lr sh(2) old [of m] new_r cmdi [of m] updf
      by (cases "m = r") auto
    subgoal for m using D(4) [of m] lr sh(2) st by simp
    subgoal for m using D(5) [of m] li sh(3) seti [of m] by auto
    subgoal for m using li lr by simp
    subgoal for m using D(7) [of m] lr sh(2,5) seti [of m] old [of m] new_r updf
      by (cases "m = r") (auto split: if_splits)
    subgoal for m using D(7) [of m] lr sh(2,5) seti [of m] old [of m] new_r updf
      by (cases "m = r") (auto split: if_splits)
    subgoal for m using D(7) [of m] lr sh(2,6) seti [of m] st
      by (cases "m = r") (auto split: if_splits)
    subgoal for m using D(7) [of m] lr sh(2) seti [of m]
      by (cases "m = r") (auto split: if_splits)
    subgoal for m using D(8) [of m] lr sh(2,5) seti [of m] old [of m] new_r updf
      by (cases "m = r") (auto split: if_splits)
    subgoal for m using D(9) [of m] lr sh(2) seti [of m] old [of m] st
      by (cases "m = r") (auto split: if_splits)
    subgoal for m using D(9) [of m] lr sh(2) seti [of m] old [of m] st
      by (cases "m = r") (auto split: if_splits)
    subgoal for m using fm nofm li by (auto split: if_splits)
    subgoal for m using fm nofm lr by (auto split: if_splits)
    subgoal for m using fm nofm new_r updf sh(5) by (auto split: if_splits)
    subgoal for m using fm nofm new_r updf by (auto split: if_splits)
    subgoal for m using fm nofm st sh(6) by (auto split: if_splits)
    subgoal for m using fm nofm by (auto split: if_splits)
    done
  then show ?thesis by (simp add: s'_def)
qed

lemma inv_loop_Continue:
  assumes inv: "inv_loop t s"
  shows "inv_loop (t @ [Continue]) (step rfn s Continue)"
proof (cases "loop s \<noteq> NotStarted \<and> finishMethod s \<noteq> None")
  case False
  then have "step rfn s Continue = s" by auto
  moreover have "inv_loop (t @ [Continue]) s"
    by (rule inv_loop_mono [OF inv]) auto
  ultimately show ?thesis by simp
next
  case True
  then obtain n where n: "finishMethod s = Some n" by auto
  note D = inv_loopD [OF inv]
  note F = D(10) [OF n]
  define s' where "s' = step rfn s Continue"
  have rs: "results s' = results s" "streams s' = streams s" "finishMethod s' = None"
    and it: "iterations s' = resolve_at n (iterations s)"
    using True n by (simp_all add: s'_def)
  have seti: "settled (iterations s' ! m) =
      (if m = n \<and> settled (iterations s ! n) = Pending then Fulfilled
       else settled (iterations s ! m))"
    if "m < length (iterations s)" for m
    using that it by (simp add: nth_resolve_at)
  have cmdi: "it_command (iterations s' ! m) = it_command (iterations s ! m)"
    if "m < length (iterations s)" for m
    using that it by (simp add: nth_resolve_at)
  have "inv_loop (t @ [Continue]) s'"
    unfolding inv_loop_def
    apply (intro conjI allI impI)
    subgoal using D(1) rs it by simp
    subgoal for m using D(2) [of m] rs by simp
    subgoal for m using D(3) [of m] D(1) rs cmdi [of m] by simp
    subgoal for m using D(4) [of m] rs by simp
    subgoal for m using D(5) [of m] it seti [of m] F by (auto split: if_splits)
    subgoal for m using D(6) [of m] it rs seti [of m] F by (auto split: if_splits)
    subgoal for m using D(7) [of m] D(1) rs seti [of m] F by (auto split: if_splits)
    subgoal for m using D(7) [of m] D(1) rs seti [of m] F by (auto split: if_splits)
    subgoal for m using D(7) [of m] D(1) rs seti [of m] F by (auto split: if_splits)
    subgoal for m using D(7) [of m] D(1) rs seti [of m] F by (auto split: if_splits)
    subgoal for m using D(8) [of m] D(1) rs seti [of m] F by (auto split: if_splits)
    subgoal for m using D(9) [of m] D(1) rs seti [of m] F by (auto split: if_splits)
    subgoal for m using D(9) [of m] D(1) rs seti [of m] F by (auto split: if_splits)
    subgoal using rs by simp
    subgoal using rs by simp
    subgoal using rs by simp
    subgoal using rs by simp
    subgoal using rs by simp
    subgoal using rs by simp
    done
  then show ?thesis by (simp add: s'_def)
qed

lemma inv_loop_finish:
  assumes "inv_loop t s"
  shows "inv_loop t' (finish s) = inv_loop t' s"
  by (rule inv_loop_cong) (simp_all add: finish_def)

lemma inv_loop_submit:
  assumes inv: "inv_loop t s"
    and last: "iterations s = [] \<or> settled (last (iterations s)) = Fulfilled"
  shows "inv_loop t (submit rfn s)"
proof -
  note D = inv_loopD [OF inv]
  define s' where "s' = submit rfn s"
  define new where "new = \<lparr> it_command = commands s ! length (iterations s),
      callNext = rfn (length (iterations s)), settled = Pending \<rparr>"
  have rs: "results s' = results s" "streams s' = streams s" "finishMethod s' = None"
    and it: "iterations s' = iterations s @ [new]"
    by (simp_all add: s'_def submit_def Let_def new_def)
  have oldi: "iterations s' ! m = iterations s ! m" if "m < length (iterations s)" for m
    using that it by (simp add: nth_append)
  have newi: "settled (iterations s' ! length (iterations s)) = Pending"
    using it by (simp add: new_def)
  have lastf: "settled (iterations s ! m) = Fulfilled" if "Suc m = length (iterations s)" for m
  proof -
    from that have "iterations s \<noteq> []" by auto
    with last have "settled (last (iterations s)) = Fulfilled" by simp
    moreover from that have "length (iterations s) - 1 = m" by simp
    ultimately show ?thesis using \<open>iterations s \<noteq> []\<close>
      by (simp add: last_conv_nth)
  qed
  have "inv_loop t s'"
    unfolding inv_loop_def
    apply (intro conjI allI impI)
    subgoal using D(1) rs it by simp
    subgoal for m using D(2) [of m] rs by simp
    subgoal for m using D(3) [of m] D(1) rs oldi [of m] by simp
    subgoal for m using D(4) [of m] rs by simp
    subgoal for m using D(5) [of m] it oldi [of m] lastf [of m]
      by (cases "Suc m = length (iterations s)") auto
    subgoal for m using D(6) [of m] it rs oldi [of m] newi
      by (cases "m = length (iterations s)") auto
    subgoal for m using D(7) [of m] D(1) rs oldi [of m] by simp
    subgoal for m using D(7) [of m] D(1) rs oldi [of m] by simp
    subgoal for m using D(7) [of m] D(1) rs oldi [of m] by simp
    subgoal for m using D(7) [of m] D(1) rs oldi [of m] by simp
    subgoal for m using D(8) [of m] D(1) rs oldi [of m] by simp
    subgoal for m using D(9) [of m] D(1) rs oldi [of m] by simp
    subgoal for m using D(9) [of m] D(1) rs oldi [of m] by simp
    subgoal using rs by simp
    subgoal using rs by simp
    subgoal using rs by simp
    subgoal using rs by simp
    subgoal using rs by simp
    subgoal using rs by simp
    done
  then show ?thesis by (simp add: s'_def)
qed

lemma step_Tick_cases:
  "step rfn s Tick = s \<or> step rfn s Tick = finish s \<or>
   (step rfn s Tick = submit rfn s \<and> loop s = Running \<and>
    length (iterations s) < length (commands s) \<and>
    (iterations s = [] \<or> settled (last (iterations s)) = Fulfilled))"
  by (auto simp: advance_def split: promise.splits)

lemma inv_loop_Tick:
  assumes inv: "inv_loop t s"
  shows "inv_loop (t @ [Tick]) (step rfn s Tick)"
proof -
  have m: "inv_loop (t @ [Tick]) s"
    by (rule inv_loop_mono [OF inv]) auto
  from step_Tick_cases [of rfn s]
  consider (same) "step rfn s Tick = s"
    | (fin) "step rfn s Tick = finish s"
    | (sub) "step rfn s Tick = submit rfn s"
        "iterations s = [] \<or> settled (last (iterations s)) = Fulfilled"
    by blast
  then show ?thesis
  proof cases
    case same
    with m show ?thesis by simp
  next
    case fin
    with m show ?thesis by (simp add: inv_loop_finish [OF inv])
  next
    case sub
    with inv_loop_submit [OF m] show ?thesis by simp
  qed
qed

lemma inv_loop_step:
  assumes "inv_loop t s" and "inv_basic rfn s" and "transport_contract (t @ [e])"
  shows "inv_loop (t @ [e]) (step rfn s e)"
proof (cases e)
  case Ready
  show ?thesis unfolding Ready by (rule inv_loop_Ready [OF assms(1)])
next
  case (Error err)
  show ?thesis unfolding Error by (rule inv_loop_Error [OF assms(1)])
next
  case Continue
  show ?thesis unfolding Continue by (rule inv_loop_Continue [OF assms(1)])
next
  case (ExecCallback n err)
  from transport_contract_snoc(2) [OF assms(3) ExecCallback]
  show ?thesis unfolding ExecCallback by (rule inv_loop_ExecCallback [OF assms(1,2)])
next
  case (StreamData r data)
  show ?thesis unfolding StreamData by (rule inv_loop_StreamData [OF assms(1)])
next
  case (StderrData r data)
  show ?thesis unfolding StderrData by (rule inv_loop_StderrData [OF assms(1)])
next
  case (StreamClose r code)
  from transport_contract_snoc(3) [OF assms(3) StreamClose]
  show ?thesis unfolding StreamClose by (rule inv_loop_StreamClose [OF assms(1)])
next
  case Tick
  show ?thesis unfolding Tick by (rule inv_loop_Tick [OF assms(1)])
qed

lemma inv_basic_run: "inv_basic rfn (run_events rfn (connect connOpts cmds) t)"
  by (induction t rule: rev_induct) (simp_all add: inv_basic_connect run_events_snoc inv_basic_step)

lemma inv_loop_run:
  "transport_contract t \<Longrightarrow> inv_loop t (run_events rfn (connect connOpts cmds) t)"
proof (induction t rule: rev_induct)
  case Nil
  show ?case by (simp add: inv_loop_connect)
next
  case (snoc e t)
  from snoc.prems have "transport_contract t" by (rule transport_contract_snoc(1))
  from inv_loop_step [OF snoc.IH [OF this] inv_basic_run snoc.prems]
  show ?case by (simp add: run_events_snoc)
qed

lemma inv_finalD:
  assumes "inv_final t s"
  shows "loop s \<noteq> Finished \<Longrightarrow>
           successCount (execResult s) = 0 \<and> failureCount (execResult s) = 0 \<and>
           \<not> results_assigned (execResult s) \<and> outcome s \<noteq> Fulfilled"
    and "loop s = Finished \<Longrightarrow>
           results_assigned (execResult s) \<and> outcome s \<noteq> Pending \<and>
           successCount (execResult s) = length (filter success (results s)) \<and>
           failureCount (execResult s) = length (filter (\<lambda>r. \<not> success r) (results s)) \<and>
           length (results s) = length (iterations s)"
    and "\<And>r. loop s = Finished \<Longrightarrow> r < length (results s) \<Longrightarrow> streams s ! r = Some r
           \<Longrightarrow> r \<in> set (closes t)"
    and "\<And>err. outcome s = Rejected err \<Longrightarrow> Error err \<in> set t"
    and "end_count s = error_count t + (if loop s = Finished then 1 else 0)"
    and "error_count t = 0 \<Longrightarrow> loop s = Finished \<Longrightarrow> outcome s = Fulfilled"
  using assms unfolding inv_final_def by blast+

lemma inv_final_cong:
  assumes "results s' = results s" "length (iterations s') = length (iterations s)"
    "streams s' = streams s" "loop s' = loop s" "execResult s' = execResult s"
    "outcome s' = outcome s" "calls s' = calls s"
    "set (closes t') = set (closes t)" "error_count t' = error_count t" "set t \<subseteq> set t'"
    and "inv_final t s"
  shows "inv_final t' s'"
  using assms(11) unfolding inv_final_def end_count_def assms(1-9)
  using assms(10) by blast

lemma error_count_snoc [simp]:
  "error_count (t @ [e]) = error_count t + (if is_error e then 1 else 0)"
  by (simp add: error_count_def)

lemma end_count_simps [simp]:
  "end_count (s\<lparr>calls := calls s @ [End]\<rparr>) = Suc (end_count s)"
  "end_count (s\<lparr>calls := calls s @ [Exec cmd]\<rparr>) = end_count s"
  by (simp_all add: end_count_def)

lemma inv_final_connect: "inv_final [] (connect connOpts cmds)"
  by (simp add: inv_final_def connect_def initial_def end_count_def error_count_def)

lemma filter_success_update:
  assumes "\<And>x. success (g x) = success x"
  shows "length (filter success (xs[r := g (xs ! r)])) = length (filter success xs)"
    and "length (filter (\<lambda>x. \<not> success x) (xs[r := g (xs ! r)]))
           = length (filter (\<lambda>x. \<not> success x) xs)"
proof -
  have m: "map success (xs[r := g (xs ! r)]) = map success xs"
    by (rule nth_equalityI) (simp_all add: nth_update_same_field [of success g, OF assms])
  have "length (filter P (map success ys)) = length (filter (P \<circ> success) ys)" for P ys
    by (simp add: filter_map)
  from this [of "\<lambda>b. b" "xs[r := g (xs ! r)]"] this [of "\<lambda>b. b" xs] m
  show "length (filter success (xs[r := g (xs ! r)])) = length (filter success xs)"
    by (simp add: comp_def)
  from \<open>\<And>P ys. length (filter P (map success ys)) = length (filter (P \<circ> success) ys)\<close>
    [of "\<lambda>b. \<not> b" "xs[r := g (xs ! r)]"]
    \<open>\<And>P ys. length (filter P (map success ys)) = length (filter (P \<circ> success) ys)\<close>
    [of "\<lambda>b. \<not> b" xs] m
  show "length (filter (\<lambda>x. \<not> success x) (xs[r := g (xs ! r)]))
          = length (filter (\<lambda>x. \<not> success x) xs)"
    by (simp add: comp_def)
qed

lemma Error_in_trace: "Error err \<in> set t \<Longrightarrow> 0 < error_count t"
  by (induction t) (auto simp: error_count_def)

lemma inv_final_Ready:
  assumes "inv_final t s"
  shows "inv_final (t @ [Ready]) (step rfn s Ready)"
  using assms unfolding inv_final_def
  by (cases "loop s = NotStarted") (simp_all add: end_count_def)

lemma inv_final_Error:
  assumes "inv_final t s"
  shows "inv_final (t @ [Error err]) (step rfn s (Error err))"
  using assms unfolding inv_final_def
  by (cases "outcome s = Pending") (simp_all add: settle_def end_count_def)

lemma inv_final_Continue:
  assumes "inv_final t s"
  shows "inv_final (t @ [Continue]) (step rfn s Continue)"
  by (rule inv_final_cong [OF _ _ _ _ _ _ _ _ _ _ assms])
     (auto split: option.splits)

lemma inv_final_StreamData:
  assumes "inv_final t s"
  shows "inv_final (t @ [StreamData r data]) (step rfn s (StreamData r data))"
proof (cases "stream_owner s r")
  case None
  show ?thesis
    by (rule inv_final_cong [OF _ _ _ _ _ _ _ _ _ _ assms]) (auto simp: None)
next
  case (Some n)
  have "inv_final t (s\<lparr>results := (results s)[r := (results s ! r)\<lparr>stdout := stdout (results s ! r) @ data\<rparr>]\<rparr>)"
    using assms unfolding inv_final_def
    by (simp add: end_count_def
          filter_success_update [of "\<lambda>x. x\<lparr>stdout := stdout (results s ! r) @ data\<rparr>"])
  then have "inv_final t (step rfn s (StreamData r data))"
    using Some by simp
  then show ?thesis
    by (rule inv_final_cong [rotated -1]) auto
qed

lemma inv_final_StderrData:
  assumes "inv_final t s"
  shows "inv_final (t @ [StderrData r data]) (step rfn s (StderrData r data))"
proof (cases "stream_owner s r")
  case None
  show ?thesis
    by (rule inv_final_cong [OF _ _ _ _ _ _ _ _ _ _ assms]) (auto simp: None)
next
  case (Some n)
  have "inv_final t (s\<lparr>results := (results s)[r := (results s ! r)\<lparr>stderr := stderr (results s ! r) @ data\<rparr>]\<rparr>)"
    using assms unfolding inv_final_def
    by (simp add: end_count_def
          filter_success_update [of "\<lambda>x. x\<lparr>stderr := stderr (results s ! r) @ data\<rparr>"])
  then have "inv_final t (step rfn s (StderrData r data))"
    using Some by simp
  then show ?thesis
    by (rule inv_final_cong [rotated -1]) auto
qed

lemma inv_final_not_finished:
  assumes f: "inv_final t s" and nf: "loop s \<noteq> Finished"
    and same: "loop s' = loop s" "execResult s' = execResult s" "outcome s' = outcome s"
      "end_count s' = end_count s" "error_count t' = error_count t" "set t \<subseteq> set t'"
  shows "inv_final t' s'"
  using f nf same(6) unfolding inv_final_def same(1-5) by auto

lemma inv_final_ExecCallback:
  assumes f: "inv_final t s" and inv: "inv_loop t s" and new: "n \<notin> set (callbacks t)"
  shows "inv_final (t @ [ExecCallback n err]) (step rfn s (ExecCallback n err))"
proof (cases "n < length (iterations s)")
  case False
  show ?thesis
    by (rule inv_final_cong [OF _ _ _ _ _ _ _ _ _ _ f]) (auto simp: False)
next
  case True
  note sh = callback_shape [OF inv True new]
  from sh(1,2) inv_finalD(2) [OF f] have nf: "loop s \<noteq> Finished" by auto
  show ?thesis
    by (rule inv_final_not_finished [OF f nf])
       (auto simp: True Let_def end_count_def)
qed

lemma inv_final_StreamClose:
  assumes f: "inv_final t s" and inv: "inv_loop t s" and new: "r \<notin> set (closes t)"
  shows "inv_final (t @ [StreamClose r code]) (step rfn s (StreamClose r code))"
proof (cases "stream_owner s r")
  case None
  have "inv_final t (step rfn s (StreamClose r code))"
    using f None by simp
  then show ?thesis
    unfolding inv_final_def by auto
next
  case (Some n)
  note sh = close_shape [OF inv Some new]
  from sh(2,6) inv_finalD(3) [OF f, of r] new have nf: "loop s \<noteq> Finished" by auto
  show ?thesis
    by (rule inv_final_not_finished [OF f nf])
       (auto simp: Some end_count_def)
qed

lemma step_Tick_cases':
  "step rfn s Tick = s \<or>
   (step rfn s Tick = finish s \<and> loop s = Running \<and>
    (iterations s = [] \<or> settled (last (iterations s)) \<noteq> Pending)) \<or>
   (step rfn s Tick = submit rfn s \<and> loop s = Running)"
  by (auto simp: advance_def split: promise.splits)

lemma inv_final_finish:
  assumes f: "inv_final t s" and inv: "inv_loop t s" and b: "inv_basic rfn s"
    and run: "loop s = Running"
    and last: "iterations s = [] \<or> settled (last (iterations s)) \<noteq> Pending"
  shows "inv_final t (finish s)"
proof -
  note D = inv_loopD [OF inv]
  from run have nf: "loop s \<noteq> Finished" by simp
  note F = inv_finalD(1) [OF f nf] inv_finalD(4,5,6) [OF f]
  have len: "length (results s) = length (iterations s)"
  proof (cases "iterations s = []")
    case True
    with b show ?thesis by (simp add: inv_basic_def)
  next
    case False
    with last have "settled (iterations s ! (length (iterations s) - 1)) \<noteq> Pending"
      by (simp add: last_conv_nth)
    from D(6) [OF _ this] False D(1) show ?thesis by simp
  qed
  have closed: "r \<in> set (closes t)"
    if r: "r < length (results s)" and st: "streams s ! r = Some r" for r
  proof (rule ccontr)
    assume "r \<notin> set (closes t)"
    from D(9) [OF r st this] have p: "settled (iterations s ! r) = Pending" by simp
    with D(5) [of r] have "\<not> Suc r < length (iterations s)" by auto
    with r len have "r = length (iterations s) - 1" and "iterations s \<noteq> []" by auto
    with last p show False by (simp add: last_conv_nth)
  qed
  have out: "outcome (finish s) = (if outcome s = Pending then Fulfilled else outcome s)"
    by (simp add: finish_def settle_def)
  have nofull: "outcome s \<noteq> Fulfilled" using F(1) by simp
  have clean: "outcome s = Pending" if "error_count t = 0"
  proof (cases "outcome s")
    case (Rejected err)
    from Error_in_trace [OF F(2) [OF this]] that show ?thesis by simp
  qed (use nofull in simp_all)
  show ?thesis
    unfolding inv_final_def
    apply (intro conjI allI impI)
    subgoal by (simp add: finish_def)
    subgoal by (simp add: finish_def)
    subgoal by (simp add: finish_def)
    subgoal by (simp add: finish_def)
    subgoal by (simp add: finish_def)
    subgoal using out by (simp split: if_splits)
    subgoal using F(1) by (simp add: finish_def)
    subgoal using F(1) by (simp add: finish_def)
    subgoal using len by (simp add: finish_def)
    subgoal for r using closed [of r] by (simp add: finish_def)
    subgoal for err using F(2) [of err] out by (simp split: if_splits)
    subgoal using F(3) nf by (simp add: finish_def end_count_def)
    subgoal using out clean by simp
    done
qed

lemma inv_final_Tick:
  assumes f: "inv_final t s" and inv: "inv_loop t s" and b: "inv_basic rfn s"
  shows "inv_final (t @ [Tick]) (step rfn s Tick)"
proof -
  from step_Tick_cases' [of rfn s]
  consider (same) "step rfn s Tick = s"
    | (fin) "step rfn s Tick = finish s" "loop s = Running"
        "iterations s = [] \<or> settled (last (iterations s)) \<noteq> Pending"
    | (sub) "step rfn s Tick = submit rfn s" "loop s = Running"
    by blast
  then have "inv_final t (step rfn s Tick)"
  proof cases
    case same
    with f show ?thesis by simp
  next
    case fin
    with inv_final_finish [OF f inv b fin(2,3)] show ?thesis by simp
  next
    case sub
    from sub(2) have nf: "loop s \<noteq> Finished" by simp
    have "inv_final t (submit rfn s)"
      by (rule inv_final_not_finished [OF f nf])
         (simp_all add: submit_def Let_def end_count_def)
    with sub show ?thesis by simp
  qed
  then show ?thesis
    by (rule inv_final_cong [rotated -1]) auto
qed

lemma inv_final_step:
  assumes "inv_final t s" and "inv_loop t s" and "inv_basic rfn s"
    and "transport_contract (t @ [e])"
  shows "inv_final (t @ [e]) (step rfn s e)"
proof (cases e)
  case Ready
  show ?thesis unfolding Ready by (rule inv_final_Ready [OF assms(1)])
next
  case (Error err)
  show ?thesis unfolding Error by (rule inv_final_Error [OF assms(1)])
next
  case Continue
  show ?thesis unfolding Continue by (rule inv_final_Continue [OF assms(1)])
next
  case (ExecCallback n err)
  from transport_contract_snoc(2) [OF assms(4) ExecCallback]
  show ?thesis unfolding ExecCallback by (rule inv_final_ExecCallback [OF assms(1,2)])
next
  case (StreamData r data)
  show ?thesis unfolding StreamData by (rule inv_final_StreamData [OF assms(1)])
next
  case (StderrData r data)
  show ?thesis unfolding StderrData by (rule inv_final_StderrData [OF assms(1)])
next
  case (StreamClose r code)
  from transport_contract_snoc(3) [OF assms(4) StreamClose]
  show ?thesis unfolding StreamClose by (rule inv_final_StreamClose [OF assms(1,2)])
next
  case Tick
  show ?thesis unfolding Tick by (rule inv_final_Tick [OF assms(1,2,3)])
qed

lemma inv_final_run:
  "transport_contract t \<Longrightarrow> inv_final t (run_events rfn (connect connOpts cmds) t)"
proof (induction t rule: rev_induct)
  case Nil
  show ?case by (simp add: inv_final_connect)
next
  case (snoc e t)
  from snoc.prems have c: "transport_contract t" by (rule transport_contract_snoc(1))
  from inv_final_step [OF snoc.IH [OF c] inv_loop_run [OF c] inv_basic_run snoc.prems]
  show ?case by (simp add: run_events_snoc)
qed

lemma run_session:
  assumes "run fs rfn c arg t = Inr (c', reads, s)"
  shows "\<exists>cmds. worklist arg = Inr cmds \<and>
           ((\<exists>err. getConnectionOptions fs c = (c', reads, Inl err) \<and>
                   s = (initial cmds)\<lparr>outcome := Rejected err\<rparr>) \<or>
            (\<exists>connOpts. getConnectionOptions fs c = (c', reads, Inr connOpts) \<and>
                   s = run_events rfn (connect connOpts cmds) t))"
  using assms
  by (auto simp: run_def split: sum.splits prod.splits)

lemma run_opened:
  assumes "worklist arg = Inr cmds" and "getConnectionOptions fs c = (c', reads, Inr connOpts)"
  shows "run fs rfn c arg t = Inr (c', reads, run_events rfn (connect connOpts cmds) t)"
  using assms by (simp add: run_def)

lemma length_filter_success:
  "length (filter success xs) + length (filter (\<lambda>r. \<not> success r) xs) = length xs"
  by (induction xs) simp_all

lemma results_in_order:
  assumes inv: "inv_loop t s" and b: "inv_basic rfn s"
  shows "map command (results s) = take (length (results s)) (commands s)"
proof (rule nth_equalityI)
  from inv_loopD(1) [OF inv] b
  show "length (map command (results s)) = length (take (length (results s)) (commands s))"
    by (simp add: inv_basic_def)
next
  fix i assume "i < length (map command (results s))"
  then have i: "i < length (results s)" by simp
  with inv_loopD(1) [OF inv] have i': "i < length (iterations s)" by simp
  from b have "map it_command (iterations s) ! i = take (length (iterations s)) (commands s) ! i"
    by (simp add: inv_basic_def)
  with i' have "it_command (iterations s ! i) = commands s ! i" by simp
  with inv_loopD(3) [OF inv i] i
  show "map command (results s) ! i = take (length (results s)) (commands s) ! i"
    by simp
qed

lemma commands_run [simp]: "commands (run_events rfn s t) = commands s"
proof (induction t rule: rev_induct)
  case (snoc e t)
  have "commands (step rfn s' e) = commands s'" for s'
    by (cases e)
       (auto simp: advance_def submit_def finish_def Let_def
             split: option.splits promise.splits)
  with snoc show ?case by (simp add: run_events_snoc)
qed simp

section \<open>Connection options\<close>

lemma checkString_1: "checkString v 1 \<longleftrightarrow> (\<exists>p. v = JString p \<and> p \<noteq> [])"
  by (cases v) (auto simp: Suc_le_eq)

lemma RemoteClient_fields:
  assumes "RemoteClient options = Inr c"
  shows "this_privateKeyData c = JUndefined"
    and "this_privateKey c =
           (if checkString (get_prop options ''privateKey'') 1
            then get_prop options ''privateKey'' else JUndefined)"
    and "this_password c =
           (if checkString (get_prop options ''password'') 1
            then get_prop options ''password'' else JUndefined)"
    and "checkString (get_prop options ''privateKey'') 1
           \<or> checkString (get_prop options ''password'') 1"
  using assms
  by (auto simp: RemoteClient_def Let_def split: if_splits)

lemma checkString_truthy: "checkString v 1 \<Longrightarrow> truthy v"
  by (cases v) auto

lemma truthy_checked:
  "truthy (if checkString v 1 then v else JUndefined) \<longleftrightarrow> checkString v 1"
  by (cases v) (auto simp: Suc_le_eq)

lemma getConnectionOptions_keeps:
  assumes "getConnectionOptions fs c = (c', reads, res)"
  shows "this_privateKey c' = this_privateKey c" and "this_password c' = this_password c"
    and "this_host c' = this_host c" and "this_port c' = this_port c"
    and "this_username c' = this_username c"
  using assms
  by (auto simp: getConnectionOptions_def Let_def split: if_splits sum.splits)

lemma getConnectionOptions_cache_from:
  assumes "getConnectionOptions fs c = (c', reads, res)" and "cache_from F c"
  shows "cache_from (insert fs F) c'"
  using assms
  by (auto simp: getConnectionOptions_def Let_def cache_from_def split: if_splits sum.splits)

lemma resolutions_keeps:
  "resolutions fss c = (c', outs) \<Longrightarrow>
     this_privateKey c' = this_privateKey c \<and> this_password c' = this_password c"
proof (induction fss arbitrary: c c' outs)
  case Nil
  then show ?case by simp
next
  case (Cons fs fss)
  obtain c1 reads res where g: "getConnectionOptions fs c = (c1, reads, res)"
    by (metis prod_cases3)
  obtain c2 rest where r: "resolutions fss c1 = (c2, rest)"
    by (metis surj_pair)
  from Cons.prems g r have "c' = c2" by simp
  with Cons.IH [OF r] getConnectionOptions_keeps(1,2) [OF g] show ?case by simp
qed

lemma resolutions_cache_from:
  "resolutions fss c = (c', outs) \<Longrightarrow> cache_from F c \<Longrightarrow> cache_from (F \<union> set fss) c'"
proof (induction fss arbitrary: c c' outs F)
  case Nil
  then show ?case by simp
next
  case (Cons fs fss)
  obtain c1 reads res where g: "getConnectionOptions fs c = (c1, reads, res)"
    by (metis prod_cases3)
  obtain c2 rest where r: "resolutions fss c1 = (c2, rest)"
    by (metis surj_pair)
  from Cons.prems(1) g r have "c' = c2" by simp
  moreover have "cache_from (insert fs F \<union> set fss) c2"
    by (rule Cons.IH [OF r getConnectionOptions_cache_from [OF g Cons.prems(2)]])
  ultimately show ?case by simp
qed


lemma RemoteClient_address:
  assumes "RemoteClient options = Inr c"
  shows "this_host c = get_prop options ''host''"
    and "this_username c = get_prop options ''username''"
    and "this_port c = (if checkNumber (get_prop options ''port'') 1
                        then get_prop options ''port'' else JNumber 22)"
  using assms
  by (auto simp: RemoteClient_def Let_def split: if_splits)

lemma resolutions_address:
  "resolutions fss c = (c', outs) \<Longrightarrow>
     this_host c' = this_host c \<and> this_port c' = this_port c \<and>
     this_username c' = this_username c"
proof (induction fss arbitrary: c c' outs)
  case Nil
  then show ?case by simp
next
  case (Cons fs fss)
  obtain c1 reads res where g: "getConnectionOptions fs c = (c1, reads, res)"
    by (metis prod_cases3)
  obtain c2 rest where r: "resolutions fss c1 = (c2, rest)"
    by (metis surj_pair)
  from Cons.prems g r have "c' = c2" by simp
  with Cons.IH [OF r] getConnectionOptions_keeps(3,4,5) [OF g] show ?case by simp
qed

lemma getConnectionOptions_password:
  assumes "\<not> truthy (this_privateKey c)"
  shows "getConnectionOptions fs c =
           (c, [], Inr \<lparr> host = this_host c, port = this_port c, username = this_username c,
                         password = this_password c, passphrase = JUndefined,
                         privateKey = JUndefined \<rparr>)"
  using assms by (simp add: getConnectionOptions_def)

lemma getConnectionOptions_readable:
  assumes "truthy (this_privateKey c)" and "fs (this_privateKey c) = Inr data"
  shows "\<exists>c' reads connOpts. getConnectionOptions fs c = (c', reads, Inr connOpts)"
  using assms by (cases "truthy (this_privateKeyData c)") (simp_all add: getConnectionOptions_def)

text \<open>
  Claim C8. For a client made by the constructor, after any number of earlier resolutions,
  the resolved connection options hold exactly one credential. Without a configured key
  path the resolution cannot fail and reads no storage: it uses the password, and the
  properties \<open>privateKey\<close> and \<open>passphrase\<close> stay unset. With a key path the
  resolution succeeds whenever storage returns the key, and whenever it succeeds the key
  is the bytes that a storage read of this or an earlier resolution returned, the
  property \<open>password\<close> stays unset, and the configured password (if any) is the
  \<open>passphrase\<close>.
\<close>

theorem connection_options_one_credential:
  assumes "RemoteClient options = Inr c0"
    and "resolutions fss c0 = (c, earlier)"
  shows "(\<not> checkString (get_prop options ''privateKey'') 1 \<longrightarrow>
            checkString (get_prop options ''password'') 1 \<and>
            getConnectionOptions fs c =
              (c, [], Inr \<lparr> host = get_prop options ''host'',
                           port = (if checkNumber (get_prop options ''port'') 1
                                   then get_prop options ''port'' else JNumber 22),
                           username = get_prop options ''username'',
                           password = get_prop options ''password'',
                           passphrase = JUndefined, privateKey = JUndefined \<rparr>)) \<and>
         (checkString (get_prop options ''privateKey'') 1 \<longrightarrow>
            (\<forall>data. fs (get_prop options ''privateKey'') = Inr data \<longrightarrow>
               (\<exists>c' reads connOpts. getConnectionOptions fs c = (c', reads, Inr connOpts))) \<and>
            (\<forall>c' reads connOpts.
               getConnectionOptions fs c = (c', reads, Inr connOpts) \<longrightarrow>
                 (\<exists>fs'\<in>set (fss @ [fs]). \<exists>data.
                     fs' (get_prop options ''privateKey'') = Inr data \<and>
                     privateKey connOpts = JBuffer data) \<and>
                 password connOpts = JUndefined \<and>
                 passphrase connOpts =
                   (if checkString (get_prop options ''password'') 1
                    then get_prop options ''password'' else JUndefined) \<and>
                 host connOpts = get_prop options ''host'' \<and>
                 username connOpts = get_prop options ''username'')) \<and>
         (\<forall>c' reads connOpts.
            getConnectionOptions fs c = (c', reads, Inr connOpts) \<longrightarrow>
              ((password connOpts \<noteq> JUndefined) \<noteq> (privateKey connOpts \<noteq> JUndefined)))"
proof -
  note f = RemoteClient_fields [OF assms(1)]
  note ad = RemoteClient_address [OF assms(1)]
  from resolutions_keeps [OF assms(2)] f
  have key: "this_privateKey c =
               (if checkString (get_prop options ''privateKey'') 1
                then get_prop options ''privateKey'' else JUndefined)"
    and pw: "this_password c =
               (if checkString (get_prop options ''password'') 1
                then get_prop options ''password'' else JUndefined)"
    by simp_all
  from resolutions_address [OF assms(2)] ad
  have adr: "this_host c = get_prop options ''host''"
    "this_username c = get_prop options ''username''"
    "this_port c = (if checkNumber (get_prop options ''port'') 1
                    then get_prop options ''port'' else JNumber 22)"
    by simp_all
  have "cache_from {} c0" using f(1) by (simp add: cache_from_def)
  from resolutions_cache_from [OF assms(2) this]
  have cf: "cache_from (set fss) c" by simp
  have a: "checkString (get_prop options ''password'') 1 \<and>
           getConnectionOptions fs c =
              (c, [], Inr \<lparr> host = get_prop options ''host'',
                           port = (if checkNumber (get_prop options ''port'') 1
                                   then get_prop options ''port'' else JNumber 22),
                           username = get_prop options ''username'',
                           password = get_prop options ''password'',
                           passphrase = JUndefined, privateKey = JUndefined \<rparr>)"
    if nk: "\<not> checkString (get_prop options ''privateKey'') 1"
  proof -
    from nk f(4) have p: "checkString (get_prop options ''password'') 1" by simp
    from nk key have "\<not> truthy (this_privateKey c)" by simp
    from getConnectionOptions_password [OF this, of fs] pw p adr show ?thesis by simp
  qed
  have b1: "\<exists>c' reads connOpts. getConnectionOptions fs c = (c', reads, Inr connOpts)"
    if k: "checkString (get_prop options ''privateKey'') 1"
      and rd: "fs (get_prop options ''privateKey'') = Inr data" for data
  proof -
    from k key have kk: "this_privateKey c = get_prop options ''privateKey''" by simp
    with checkString_truthy [OF k] have "truthy (this_privateKey c)" by simp
    from getConnectionOptions_readable [OF this, of fs data] kk rd show ?thesis by simp
  qed
  have b2: "(\<exists>fs'\<in>set (fss @ [fs]). \<exists>data.
                fs' (get_prop options ''privateKey'') = Inr data \<and>
                privateKey connOpts = JBuffer data) \<and>
            password connOpts = JUndefined \<and>
            passphrase connOpts =
              (if checkString (get_prop options ''password'') 1
               then get_prop options ''password'' else JUndefined) \<and>
            host connOpts = get_prop options ''host'' \<and>
            username connOpts = get_prop options ''username''"
    if k: "checkString (get_prop options ''privateKey'') 1"
      and g: "getConnectionOptions fs c = (c', reads, Inr connOpts)" for c' reads connOpts
  proof -
    from k key have kk: "this_privateKey c = get_prop options ''privateKey''" by simp
    with checkString_truthy [OF k] have t: "truthy (this_privateKey c)" by simp
    from g t cf kk pw k adr show ?thesis
      by (auto simp: getConnectionOptions_def Let_def cache_from_def
               split: if_splits sum.splits)
  qed
  have c: "(password connOpts \<noteq> JUndefined) \<noteq> (privateKey connOpts \<noteq> JUndefined)"
    if g: "getConnectionOptions fs c = (c', reads, Inr connOpts)" for c' reads connOpts
  proof (cases "checkString (get_prop options ''privateKey'') 1")
    case True
    from b2 [OF True g] show ?thesis by auto
  next
    case False
    from a [OF False] g have "password connOpts = get_prop options ''password''"
      "privateKey connOpts = JUndefined" "checkString (get_prop options ''password'') 1"
      by auto
    then show ?thesis by (auto simp: checkString_1)
  qed
  show ?thesis
    apply (intro conjI allI impI)
    subgoal using a by simp
    subgoal using a by simp
    subgoal for data by (rule b1)
    subgoal for c' reads connOpts using b2 [of c' reads connOpts] by simp
    subgoal for c' reads connOpts using b2 [of c' reads connOpts] by simp
    subgoal for c' reads connOpts using b2 [of c' reads connOpts] by simp
    subgoal for c' reads connOpts using b2 [of c' reads connOpts] by simp
    subgoal for c' reads connOpts using b2 [of c' reads connOpts] by simp
    subgoal for c' reads connOpts by (rule c)
    done
qed

theorem connection_options_one_credential_witness:
  "RemoteClient (JObject [(''host'', JString ''h''), (''username'', JString ''u''),
                          (''password'', JString ''pw'')])
     = Inr \<lparr> this_host = JString ''h'', this_port = JNumber 22, this_username = JString ''u'',
             this_password = JString ''pw'', this_privateKey = JUndefined,
             this_privateKeyData = JUndefined \<rparr> \<and>
   getConnectionOptions (\<lambda>p. Inl ''ENOENT'')
       \<lparr> this_host = JString ''h'', this_port = JNumber 22, this_username = JString ''u'',
         this_password = JString ''pw'', this_privateKey = JUndefined,
         this_privateKeyData = JUndefined \<rparr>
     = (\<lparr> this_host = JString ''h'', this_port = JNumber 22, this_username = JString ''u'',
          this_password = JString ''pw'', this_privateKey = JUndefined,
          this_privateKeyData = JUndefined \<rparr>,
        [],
        Inr \<lparr> host = JString ''h'', port = JNumber 22, username = JString ''u'',
              password = JString ''pw'', passphrase = JUndefined,
              privateKey = JUndefined \<rparr>) \<and>
   RemoteClient (JObject [(''host'', JString ''h''), (''username'', JString ''u''),
                          (''password'', JString ''pw''), (''privateKey'', JString ''id_rsa'')])
     = Inr \<lparr> this_host = JString ''h'', this_port = JNumber 22, this_username = JString ''u'',
             this_password = JString ''pw'', this_privateKey = JString ''id_rsa'',
             this_privateKeyData = JUndefined \<rparr> \<and>
   getConnectionOptions (\<lambda>p. Inr ''KEY'')
       \<lparr> this_host = JString ''h'', this_port = JNumber 22, this_username = JString ''u'',
         this_password = JString ''pw'', this_privateKey = JString ''id_rsa'',
         this_privateKeyData = JUndefined \<rparr>
     = (\<lparr> this_host = JString ''h'', this_port = JNumber 22, this_username = JString ''u'',
          this_password = JString ''pw'', this_privateKey = JString ''id_rsa'',
          this_privateKeyData = JBuffer ''KEY'' \<rparr>,
        [JString ''id_rsa''],
        Inr \<lparr> host = JString ''h'', port = JNumber 22, username = JString ''u'',
              password = JUndefined, passphrase = JString ''pw'',
              privateKey = JBuffer ''KEY'' \<rparr>) \<and>
   ((password \<lparr> host = JString ''h'', port = JNumber 22, username = JString ''u'',
               password = JUndefined, passphrase = JString ''pw'',
               privateKey = JBuffer ''KEY'' \<rparr> \<noteq> JUndefined)
     \<noteq> (privateKey \<lparr> host = JString ''h'', port = JNumber 22, username = JString ''u'',
                      password = JUndefined, passphrase = JString ''pw'',
                      privateKey = JBuffer ''KEY'' \<rparr> \<noteq> JUndefined))"
proof -
  let ?pwOptions = "JObject [(''host'', JString ''h''), (''username'', JString ''u''),
                             (''password'', JString ''pw'')]"
  let ?pwClient = "\<lparr> this_host = JString ''h'', this_port = JNumber 22,
                     this_username = JString ''u'', this_password = JString ''pw'',
                     this_privateKey = JUndefined, this_privateKeyData = JUndefined \<rparr>"
  let ?options = "JObject [(''host'', JString ''h''), (''username'', JString ''u''),
                           (''password'', JString ''pw''), (''privateKey'', JString ''id_rsa'')]"
  let ?c0 = "\<lparr> this_host = JString ''h'', this_port = JNumber 22, this_username = JString ''u'',
               this_password = JString ''pw'', this_privateKey = JString ''id_rsa'',
               this_privateKeyData = JUndefined \<rparr>"
  let ?connOpts = "\<lparr> host = JString ''h'', port = JNumber 22, username = JString ''u'',
                     password = JUndefined, passphrase = JString ''pw'',
                     privateKey = JBuffer ''KEY'' \<rparr>"
  have p1: "RemoteClient ?pwOptions = Inr ?pwClient"
    by (simp add: RemoteClient_def)
  have p2: "resolutions [] ?pwClient = (?pwClient, [])"
    by simp
  have p3: "\<not> checkString (get_prop ?pwOptions ''privateKey'') 1"
    by simp
  note pw = connection_options_one_credential [OF p1 p2, of "\<lambda>p. Inl ''ENOENT''",
      THEN conjunct1, THEN mp, OF p3, THEN conjunct2]
  have a: "getConnectionOptions (\<lambda>p. Inl ''ENOENT'') ?pwClient
             = (?pwClient, [],
                Inr \<lparr> host = JString ''h'', port = JNumber 22, username = JString ''u'',
                      password = JString ''pw'', passphrase = JUndefined,
                      privateKey = JUndefined \<rparr>)"
    using pw by simp
  have h1: "RemoteClient ?options = Inr ?c0"
    by (simp add: RemoteClient_def)
  have h2: "resolutions [] ?c0 = (?c0, [])"
    by simp
  have h3: "getConnectionOptions (\<lambda>p. Inr ''KEY'') ?c0
              = (?c0\<lparr>this_privateKeyData := JBuffer ''KEY''\<rparr>, [JString ''id_rsa''], Inr ?connOpts)"
    by (simp add: getConnectionOptions_def)
  note one = connection_options_one_credential [OF h1 h2, of "\<lambda>p. Inr ''KEY''",
      THEN conjunct2, THEN conjunct2, rule_format, OF h3]
  from p1 a h1 h3 one show ?thesis
    by simp
qed

lemma getConnectionOptions_cached:
  assumes "truthy (this_privateKey c)" and "truthy (this_privateKeyData c)"
  shows "getConnectionOptions fs c =
           (c, [], Inr \<lparr> host = this_host c, port = this_port c, username = this_username c,
                         password = JUndefined, passphrase = this_password c,
                         privateKey = this_privateKeyData c \<rparr>)"
  using assms by (simp add: getConnectionOptions_def)

lemma getConnectionOptions_success_caches:
  assumes "getConnectionOptions fs c = (c', reads, Inr connOpts)"
    and "truthy (this_privateKey c)"
    and "this_privateKeyData c = JUndefined \<or> (\<exists>d. this_privateKeyData c = JBuffer d)"
  shows "truthy (this_privateKeyData c')"
    and "connOpts = \<lparr> host = this_host c', port = this_port c', username = this_username c',
                      password = JUndefined, passphrase = this_password c',
                      privateKey = this_privateKeyData c' \<rparr>"
  using assms
  by (auto simp: getConnectionOptions_def Let_def split: if_splits sum.splits)

lemma resolutions_cached:
  assumes "truthy (this_privateKey c)" and "truthy (this_privateKeyData c)"
  shows "resolutions later c =
           (c, map (\<lambda>fs. ([], Inr \<lparr> host = this_host c, port = this_port c,
                                     username = this_username c, password = JUndefined,
                                     passphrase = this_password c,
                                     privateKey = this_privateKeyData c \<rparr>)) later)"
  by (induction later) (simp_all add: getConnectionOptions_cached [OF assms])

lemma getConnectionOptions_reads:
  assumes "getConnectionOptions fs c = (c', reads, res)" and "truthy (this_privateKey c)"
  shows "reads = (if truthy (this_privateKeyData c) then [] else [this_privateKey c])"
    and "truthy (this_privateKeyData c') \<longleftrightarrow> (\<exists>connOpts. res = Inr connOpts)"
    and "\<not> truthy (this_privateKeyData c) \<Longrightarrow> fs (this_privateKey c) = Inl message
           \<Longrightarrow> res = Inl (JError message)"
  using assms
  by (auto simp: getConnectionOptions_def Let_def split: if_splits sum.splits)

lemma resolutions_success:
  "resolutions fss c = (c', outs) \<Longrightarrow> truthy (this_privateKey c) \<Longrightarrow>
     truthy (this_privateKeyData c') \<longleftrightarrow>
       truthy (this_privateKeyData c) \<or> (\<exists>rs connOpts. (rs, Inr connOpts) \<in> set outs)"
proof (induction fss arbitrary: c c' outs)
  case Nil
  then show ?case by simp
next
  case (Cons fs fss)
  obtain c1 reads res where g: "getConnectionOptions fs c = (c1, reads, res)"
    by (metis prod_cases3)
  obtain c2 rest where r: "resolutions fss c1 = (c2, rest)"
    by (metis surj_pair)
  from Cons.prems(1) g r have eq: "c' = c2" "outs = (reads, res) # rest" by simp_all
  have k1: "truthy (this_privateKey c1)"
    using getConnectionOptions_keeps(1) [OF g] Cons.prems(2) by simp
  note ih = Cons.IH [OF r k1]
  note rd = getConnectionOptions_reads(2) [OF g Cons.prems(2)]
  show ?case
  proof (cases "truthy (this_privateKeyData c)")
    case True
    with getConnectionOptions_cached [OF Cons.prems(2) True, of fs] g
    have "c1 = c" by simp
    with ih True eq show ?thesis by simp
  next
    case False
    with ih rd eq show ?thesis by auto
  qed
qed


text \<open>
  Claim C9. For a client made by the constructor with a key path: once a resolution has
  succeeded, every later resolution reads nothing from storage, leaves the client as it is
  and yields the same options (whatever the storage then holds); a resolution reads
  storage exactly when no earlier one has succeeded, and then reads the key path once;
  and a storage read that fails rejects the resolution with the storage error.
\<close>

theorem key_material_cached:
  assumes "RemoteClient options = Inr c0"
    and "checkString (get_prop options ''privateKey'') 1"
    and "resolutions fss c0 = (c, earlier)"
    and "getConnectionOptions fs c = (c', reads, res)"
  shows "(\<forall>connOpts. res = Inr connOpts \<longrightarrow>
            (\<forall>later. resolutions later c' = (c', map (\<lambda>fs'. ([], Inr connOpts)) later))) \<and>
         (reads = [] \<longleftrightarrow> (\<exists>rs connOpts. (rs, Inr connOpts) \<in> set earlier)) \<and>
         (reads \<noteq> [] \<longrightarrow> reads = [get_prop options ''privateKey'']) \<and>
         (\<forall>message. reads \<noteq> [] \<and> fs (get_prop options ''privateKey'') = Inl message
            \<longrightarrow> res = Inl (JError message))"
proof -
  note f = RemoteClient_fields [OF assms(1)]
  from f(2) assms(2) have k0: "this_privateKey c0 = get_prop options ''privateKey''"
    by simp
  with checkString_truthy [OF assms(2)] have t0: "truthy (this_privateKey c0)"
    by simp
  from resolutions_keeps [OF assms(3)] k0 t0
  have k: "this_privateKey c = get_prop options ''privateKey''"
    and t: "truthy (this_privateKey c)"
    by simp_all
  have "cache_from {} c0" using f(1) by (simp add: cache_from_def)
  from resolutions_cache_from [OF assms(3) this]
  have shape: "this_privateKeyData c = JUndefined \<or> (\<exists>d. this_privateKeyData c = JBuffer d)"
    by (auto simp: cache_from_def)
  from resolutions_success [OF assms(3) t0] f(1)
  have seen: "truthy (this_privateKeyData c) \<longleftrightarrow>
                (\<exists>rs connOpts. (rs, Inr connOpts) \<in> set earlier)"
    by simp
  note rd = getConnectionOptions_reads [OF assms(4) t]
  have a: "resolutions later c' = (c', map (\<lambda>fs'. ([], Inr connOpts)) later)"
    if "res = Inr connOpts" for connOpts later
  proof -
    from that assms(4) have g: "getConnectionOptions fs c = (c', reads, Inr connOpts)"
      by simp
    have t': "truthy (this_privateKey c')"
      using getConnectionOptions_keeps(1) [OF assms(4)] t by simp
    from resolutions_cached [OF t' getConnectionOptions_success_caches(1) [OF g t shape]]
      getConnectionOptions_success_caches(2) [OF g t shape]
    show ?thesis by simp
  qed
  have b: "reads = [] \<longleftrightarrow> (\<exists>rs connOpts. (rs, Inr connOpts) \<in> set earlier)"
    using rd(1) seen by simp
  have c: "reads \<noteq> [] \<longrightarrow> reads = [get_prop options ''privateKey'']"
    using rd(1) k by simp
  have d: "res = Inl (JError message)"
    if "reads \<noteq> []" and "fs (get_prop options ''privateKey'') = Inl message" for message
    using that rd(1) rd(3) [of message] k by (simp split: if_splits)
  from a b c d show ?thesis by blast
qed



theorem key_material_cached_witness:
  "RemoteClient (JObject [(''host'', JString ''h''), (''username'', JString ''u''),
                          (''privateKey'', JString ''id_rsa'')])
     = Inr \<lparr> this_host = JString ''h'', this_port = JNumber 22, this_username = JString ''u'',
             this_password = JUndefined, this_privateKey = JString ''id_rsa'',
             this_privateKeyData = JUndefined \<rparr> \<and>
   getConnectionOptions (\<lambda>p. Inr ''KEY'')
       \<lparr> this_host = JString ''h'', this_port = JNumber 22, this_username = JString ''u'',
         this_password = JUndefined, this_privateKey = JString ''id_rsa'',
         this_privateKeyData = JUndefined \<rparr>
     = (\<lparr> this_host = JString ''h'', this_port = JNumber 22, this_username = JString ''u'',
          this_password = JUndefined, this_privateKey = JString ''id_rsa'',
          this_privateKeyData = JBuffer ''KEY'' \<rparr>,
        [JString ''id_rsa''],
        Inr \<lparr> host = JString ''h'', port = JNumber 22, username = JString ''u'',
              password = JUndefined, passphrase = JUndefined,
              privateKey = JBuffer ''KEY'' \<rparr>) \<and>
   resolutions [\<lambda>p. Inl ''EIO'', \<lambda>p. Inr ''OTHER'']
       \<lparr> this_host = JString ''h'', this_port = JNumber 22, this_username = JString ''u'',
         this_password = JUndefined, this_privateKey = JString ''id_rsa'',
         this_privateKeyData = JBuffer ''KEY'' \<rparr>
     = (\<lparr> this_host = JString ''h'', this_port = JNumber 22, this_username = JString ''u'',
          this_password = JUndefined, this_privateKey = JString ''id_rsa'',
          this_privateKeyData = JBuffer ''KEY'' \<rparr>,
        [([], Inr \<lparr> host = JString ''h'', port = JNumber 22, username = JString ''u'',
                    password = JUndefined, passphrase = JUndefined,
                    privateKey = JBuffer ''KEY'' \<rparr>),
         ([], Inr \<lparr> host = JString ''h'', port = JNumber 22, username = JString ''u'',
                    password = JUndefined, passphrase = JUndefined,
                    privateKey = JBuffer ''KEY'' \<rparr>)])"
proof -
  let ?options = "JObject [(''host'', JString ''h''), (''username'', JString ''u''),
                           (''privateKey'', JString ''id_rsa'')]"
  let ?c0 = "\<lparr> this_host = JString ''h'', this_port = JNumber 22, this_username = JString ''u'',
               this_password = JUndefined, this_privateKey = JString ''id_rsa'',
               this_privateKeyData = JUndefined \<rparr>"
  let ?connOpts = "\<lparr> host = JString ''h'', port = JNumber 22, username = JString ''u'',
                     password = JUndefined, passphrase = JUndefined,
                     privateKey = JBuffer ''KEY'' \<rparr>"
  have h1: "RemoteClient ?options = Inr ?c0"
    by (simp add: RemoteClient_def)
  have h2: "checkString (get_prop ?options ''privateKey'') 1"
    by simp
  have h3: "resolutions [] ?c0 = (?c0, [])"
    by simp
  have h4: "getConnectionOptions (\<lambda>p. Inr ''KEY'') ?c0
              = (?c0\<lparr>this_privateKeyData := JBuffer ''KEY''\<rparr>, [JString ''id_rsa''], Inr ?connOpts)"
    by (simp add: getConnectionOptions_def)
  note cached = key_material_cached [OF h1 h2 h3 h4, THEN conjunct1, rule_format, OF refl]
  from cached [of "[\<lambda>p. Inl ''EIO'', \<lambda>p. Inr ''OTHER'']"] h1 h4 show ?thesis
    by simp
qed


section \<open>The single string and the empty list\<close>

text \<open>
  Claim C7. A non-empty command string is turned into the one-element list before
  anything else happens, so \<open>run(s)\<close> and \<open>run([s])\<close> are the same computation and
  give the same result against the same storage, transport and scheduler.
\<close>

theorem run_string_as_singleton:
  "s \<noteq> [] \<Longrightarrow>
     worklist (JString s) = Inr [JString s] \<and>
     worklist (JArray [JString s]) = Inr [JString s] \<and>
     run fs rfn c (JString s) evs = run fs rfn c (JArray [JString s]) evs"
  by (cases s) (simp_all add: worklist_def run_def)

theorem run_string_as_singleton_witness:
  "worklist (JString ''ls'') = Inr [JString ''ls''] \<and>
   run (\<lambda>p. Inl ''ENOENT'') (\<lambda>k. True)
       \<lparr> this_host = JString ''h'', this_port = JNumber 22, this_username = JString ''u'',
         this_password = JString ''p'', this_privateKey = JUndefined,
         this_privateKeyData = JUndefined \<rparr>
       (JString ''ls'') [Ready, Tick]
   = run (\<lambda>p. Inl ''ENOENT'') (\<lambda>k. True)
       \<lparr> this_host = JString ''h'', this_port = JNumber 22, this_username = JString ''u'',
         this_password = JString ''p'', this_privateKey = JUndefined,
         this_privateKeyData = JUndefined \<rparr>
       (JArray [JString ''ls'']) [Ready, Tick]"
  using run_string_as_singleton [of "''ls''"] by simp

lemma step_after_empty_finish:
  assumes "loop s = Finished" and "iterations s = []" and "results s = []"
    and "finishMethod s = None" and "\<not> is_error e"
  shows "step rfn s e = s"
  using assms by (cases e) (simp_all add: stream_owner_def)

lemma run_events_after_empty_finish:
  assumes "loop s = Finished" and "iterations s = []" and "results s = []"
    and "finishMethod s = None" and "\<forall>e\<in>set evs. \<not> is_error e"
  shows "run_events rfn s evs = s"
  using assms
  by (induction evs) (simp_all add: step_after_empty_finish)

lemma step_no_commands:
  assumes "commands s = []" and "iterations s = []" and "results s = []"
    and "finishMethod s = None"
  shows "commands (step rfn s e) = [] \<and> iterations (step rfn s e) = [] \<and>
         results (step rfn s e) = [] \<and> finishMethod (step rfn s e) = None \<and>
         exec_log (step rfn s e) = exec_log s \<and>
         commandCount (execResult (step rfn s e)) = commandCount (execResult s) \<and>
         successCount (execResult (step rfn s e)) = successCount (execResult s) \<and>
         failureCount (execResult (step rfn s e)) = failureCount (execResult s)"
  using assms
  by (cases e) (simp_all add: stream_owner_def advance_def finish_def exec_log_def)

lemma run_events_no_commands:
  assumes "commands s = []" and "iterations s = []" and "results s = []"
    and "finishMethod s = None"
  shows "results (run_events rfn s evs) = [] \<and>
         exec_log (run_events rfn s evs) = exec_log s \<and>
         commandCount (execResult (run_events rfn s evs)) = commandCount (execResult s) \<and>
         successCount (execResult (run_events rfn s evs)) = successCount (execResult s) \<and>
         failureCount (execResult (run_events rfn s evs)) = failureCount (execResult s)"
  using assms
proof (induction evs arbitrary: s)
  case Nil
  then show ?case by simp
next
  case (Cons e evs)
  note st = step_no_commands [OF Cons.prems, of rfn e]
  from st Cons.IH [of "step rfn s e"] show ?case
    by simp
qed


lemma loop_not_back: "loop s \<noteq> NotStarted \<Longrightarrow> loop (step rfn s e) \<noteq> NotStarted"
  by (cases e) (auto simp: Let_def advance_def submit_def finish_def
                     split: option.splits promise.splits)

lemma run_loop_not_back:
  "loop s \<noteq> NotStarted \<Longrightarrow> loop (run_events rfn s t) \<noteq> NotStarted"
  by (induction t arbitrary: s) (simp_all add: loop_not_back)

lemma run_loop_stays_finished:
  "loop s = Finished \<Longrightarrow> loop (run_events rfn s t) = Finished"
  by (induction t arbitrary: s) (simp_all add: loop_stays_finished)

lemma step_Tick_no_commands:
  assumes "loop s \<noteq> NotStarted" and "iterations s = []" and "commands s = []"
  shows "loop (step rfn s Tick) = Finished"
  using assms by (cases "loop s") (simp_all add: advance_def finish_def)

lemma step_calls_no_commands:
  assumes "commands s = []" and "iterations s = []"
  shows "calls (step rfn s e) = calls s \<or> calls (step rfn s e) = calls s @ [End]"
  using assms
  by (cases e) (auto simp: Let_def advance_def finish_def stream_owner_def
                     split: option.splits promise.splits)

lemma calls_no_commands:
  assumes b: "inv_basic rfn s" and c: "commands s = []"
    and sh: "calls s = Connect connOpts # replicate n End"
  shows "\<exists>m. calls (step rfn s e) = Connect connOpts # replicate m End"
proof -
  from b c have "iterations s = []" by (simp add: inv_basic_def)
  from step_calls_no_commands [OF c this, of rfn e] sh
  have "calls (step rfn s e) = Connect connOpts # replicate n End \<or>
        calls (step rfn s e) = Connect connOpts # replicate (Suc n) End"
    by (auto simp: replicate_append_same)
  then show ?thesis by blast
qed

lemma run_calls_no_commands:
  "\<exists>m. calls (run_events rfn (connect connOpts []) t) = Connect connOpts # replicate m End"
proof (induction t rule: rev_induct)
  case Nil
  have "calls (connect connOpts []) = Connect connOpts # replicate 0 End"
    by (simp add: connect_def initial_def)
  then show ?case by simp
next
  case (snoc e t)
  then obtain n where n: "calls (run_events rfn (connect connOpts []) t)
      = Connect connOpts # replicate n End" ..
  have c: "commands (run_events rfn (connect connOpts []) t) = []"
    by (simp add: connect_def initial_def)
  from calls_no_commands [OF inv_basic_run c n, of e] show ?case
    by (simp add: run_events_snoc)
qed

lemma end_count_replicate:
  "calls s = Connect connOpts # replicate m End \<Longrightarrow> end_count s = m"
  by (simp add: end_count_def)

lemma empty_list_finishes:
  assumes "evs = pre @ Ready # mid @ Tick # post"
  shows "loop (run_events rfn (connect connOpts []) evs) = Finished"
proof -
  define s1 where "s1 = run_events rfn (connect connOpts []) (pre @ [Ready])"
  define s2 where "s2 = run_events rfn s1 mid"
  have "loop s1 \<noteq> NotStarted"
    unfolding s1_def by (simp add: run_events_snoc)
  then have l2: "loop s2 \<noteq> NotStarted"
    unfolding s2_def by (rule run_loop_not_back)
  have eq2: "s2 = run_events rfn (connect connOpts []) (pre @ Ready # mid)"
    by (simp add: s2_def s1_def run_events_append)
  have b: "inv_basic rfn s2" unfolding eq2 by (rule inv_basic_run)
  have c: "commands s2 = []" unfolding eq2 by (simp add: connect_def initial_def)
  from b c have i: "iterations s2 = []" by (simp add: inv_basic_def)
  from step_Tick_no_commands [OF l2 i c]
  have "loop (step rfn s2 Tick) = Finished" .
  then have "loop (run_events rfn (step rfn s2 Tick) post) = Finished"
    by (rule run_loop_stays_finished)
  moreover have "run_events rfn (connect connOpts []) evs
      = run_events rfn (step rfn s2 Tick) post"
    by (simp add: assms eq2 run_events_append)
  ultimately show ?thesis by simp
qed

text \<open>
  Claim C10. The empty list is accepted: it is no argument error. Against a transport that
  keeps its contract no command is ever submitted, and the summary has \<open>commandCount\<close>,
  \<open>successCount\<close> and \<open>failureCount\<close> zero and no results. Once the session has become
  ready and the scheduler has run after that, a session without transport errors has its
  promise fulfilled, and the calls on the ssh2 client are exactly \<open>connect\<close> and
  \<open>end\<close>.
\<close>

theorem run_empty_command_list:
  assumes "getConnectionOptions fs c = (c', reads, Inr connOpts)"
    and "transport_contract evs"
  shows "worklist (JArray []) = Inr [] \<and>
         (\<exists>s. run fs rfn c (JArray []) evs = Inr (c', reads, s) \<and>
              exec_log s = [] \<and> summary_results s = [] \<and>
              commandCount (execResult s) = 0 \<and>
              successCount (execResult s) = 0 \<and> failureCount (execResult s) = 0 \<and>
              (\<forall>pre mid post.
                 evs = pre @ Ready # mid @ Tick # post \<and> error_count evs = 0 \<longrightarrow>
                   outcome s = Fulfilled \<and> calls s = [Connect connOpts, End]))"
proof -
  have w: "worklist (JArray []) = Inr []"
    by (simp add: worklist_def)
  define s where "s = run_events rfn (connect connOpts []) evs"
  have r: "run fs rfn c (JArray []) evs = Inr (c', reads, s)"
    unfolding s_def by (rule run_opened [OF w assms(1)])
  have s0: "commands (connect connOpts []) = []" "iterations (connect connOpts []) = []"
    "results (connect connOpts []) = []" "finishMethod (connect connOpts []) = None"
    by (simp_all add: connect_def initial_def)
  from run_events_no_commands [OF s0, of rfn evs]
  have z: "exec_log s = []" "summary_results s = []" "commandCount (execResult s) = 0"
    "successCount (execResult s) = 0" "failureCount (execResult s) = 0"
    by (simp_all add: s_def summary_results_def connect_def initial_def exec_log_def)
  have f: "inv_final evs s" unfolding s_def by (rule inv_final_run [OF assms(2)])
  have d: "outcome s = Fulfilled \<and> calls s = [Connect connOpts, End]"
    if h: "evs = pre @ Ready # mid @ Tick # post \<and> error_count evs = 0" for pre mid post
  proof -
    from h have dec: "evs = pre @ Ready # mid @ Tick # post" by (rule conjunct1)
    from h have e: "error_count evs = 0" by (rule conjunct2)
    from empty_list_finishes [OF dec, of rfn connOpts] have l: "loop s = Finished"
      by (simp add: s_def)
    from inv_finalD(6) [OF f e l] have o: "outcome s = Fulfilled" .
    from inv_finalD(5) [OF f] e l have ec: "end_count s = 1" by simp
    from run_calls_no_commands [of rfn connOpts evs] obtain m where
      m: "calls s = Connect connOpts # replicate m End" unfolding s_def ..
    from end_count_replicate [OF m] ec have "m = 1" by simp
    with m o show ?thesis by simp
  qed
  show ?thesis
    apply (intro conjI)
    subgoal by (rule w)
    subgoal
      apply (rule exI [of _ s])
      apply (intro conjI allI impI)
      subgoal by (rule r)
      subgoal by (rule z)
      subgoal by (rule z)
      subgoal by (rule z)
      subgoal by (rule z)
      subgoal by (rule z)
      subgoal for pre mid post by (drule d) blast
      subgoal for pre mid post by (drule d) blast
      done
    done
qed

theorem run_empty_command_list_witness:
  "getConnectionOptions (\<lambda>p. Inl ''ENOENT'')
       \<lparr> this_host = JString ''h'', this_port = JNumber 22, this_username = JString ''u'',
         this_password = JString ''pw'', this_privateKey = JUndefined,
         this_privateKeyData = JUndefined \<rparr>
     = (\<lparr> this_host = JString ''h'', this_port = JNumber 22, this_username = JString ''u'',
          this_password = JString ''pw'', this_privateKey = JUndefined,
          this_privateKeyData = JUndefined \<rparr>,
        [],
        Inr \<lparr> host = JString ''h'', port = JNumber 22, username = JString ''u'',
              password = JString ''pw'', passphrase = JUndefined,
              privateKey = JUndefined \<rparr>) \<and>
   transport_contract [Continue, Ready, Continue, Tick, Tick] \<and>
   (\<exists>s. run (\<lambda>p. Inl ''ENOENT'') (\<lambda>k. True)
            \<lparr> this_host = JString ''h'', this_port = JNumber 22, this_username = JString ''u'',
              this_password = JString ''pw'', this_privateKey = JUndefined,
              this_privateKeyData = JUndefined \<rparr>
            (JArray []) [Continue, Ready, Continue, Tick, Tick]
          = Inr (\<lparr> this_host = JString ''h'', this_port = JNumber 22,
                   this_username = JString ''u'', this_password = JString ''pw'',
                   this_privateKey = JUndefined, this_privateKeyData = JUndefined \<rparr>, [], s) \<and>
        commandCount (execResult s) = 0 \<and> summary_results s = [] \<and>
        successCount (execResult s) = 0 \<and> failureCount (execResult s) = 0 \<and>
        outcome s = Fulfilled \<and>
        calls s = [Connect \<lparr> host = JString ''h'', port = JNumber 22, username = JString ''u'',
                             password = JString ''pw'', passphrase = JUndefined,
                             privateKey = JUndefined \<rparr>, End])"
proof -
  let ?c = "\<lparr> this_host = JString ''h'', this_port = JNumber 22, this_username = JString ''u'',
              this_password = JString ''pw'', this_privateKey = JUndefined,
              this_privateKeyData = JUndefined \<rparr>"
  let ?connOpts = "\<lparr> host = JString ''h'', port = JNumber 22, username = JString ''u'',
                     password = JString ''pw'', passphrase = JUndefined,
                     privateKey = JUndefined \<rparr>"
  let ?evs = "[Continue, Ready, Continue, Tick, Tick]"
  have h: "getConnectionOptions (\<lambda>p. Inl ''ENOENT'') ?c = (?c, [], Inr ?connOpts)"
    by (simp add: getConnectionOptions_def)
  have k: "transport_contract ?evs"
    by (simp add: transport_contract_def)
  have dec: "?evs = [Continue] @ Ready # [Continue] @ Tick # [Tick] \<and> error_count ?evs = 0"
    by (simp add: error_count_def)
  from run_empty_command_list [OF h k, of "\<lambda>k. True", THEN conjunct2]
  obtain s where r: "run (\<lambda>p. Inl ''ENOENT'') (\<lambda>k. True) ?c (JArray []) ?evs = Inr (?c, [], s)"
    and z: "summary_results s = []" "commandCount (execResult s) = 0"
      "successCount (execResult s) = 0" "failureCount (execResult s) = 0"
    and fin: "\<forall>pre mid post.
        ?evs = pre @ Ready # mid @ Tick # post \<and> error_count ?evs = 0 \<longrightarrow>
          outcome s = Fulfilled \<and> calls s = [Connect ?connOpts, End]"
    by (elim exE conjE)
  from fin [rule_format, OF dec]
  have o: "outcome s = Fulfilled" and cl: "calls s = [Connect ?connOpts, End]"
    by simp_all
  show ?thesis
    apply (intro conjI)
    subgoal by (rule h)
    subgoal by (rule k)
    subgoal by (rule exI [of _ s]) (use r z o cl in simp)
    done
qed

section \<open>The summary\<close>

lemmas eval_defs = run_def worklist_def getConnectionOptions_def connect_def initial_def
  advance_def submit_def finish_def settle_def resolve_at_def reject_at_def stream_owner_def
  Let_def transport_contract_def summary_results_def nonZeroExit_def

text \<open>
  Claim C3. Whenever \<open>run\<close> has fulfilled its promise, against a transport that keeps
  its contract, \<open>commandCount\<close> is the length of the requested list, \<open>successCount\<close>
  and \<open>failureCount\<close> count the successful and the failed results and add up to the
  number of results, there are at most \<open>commandCount\<close> results, and the commands of the
  results are a prefix of the requested list, in its order.
\<close>

theorem summary_counts:
  assumes "transport_contract t"
    and "run fs rfn c arg t = Inr (c', reads, s)"
    and "outcome s = Fulfilled"
  shows "\<exists>cmds. worklist arg = Inr cmds \<and>
           commandCount (execResult s) = length cmds \<and>
           successCount (execResult s) + failureCount (execResult s)
             = length (summary_results s) \<and>
           length (summary_results s) \<le> commandCount (execResult s) \<and>
           map command (summary_results s) = take (length (summary_results s)) cmds \<and>
           successCount (execResult s) = length (filter success (summary_results s)) \<and>
           failureCount (execResult s)
             = length (filter (\<lambda>r. \<not> success r) (summary_results s))"
proof -
  from run_session [OF assms(2)] assms(3)
  obtain cmds connOpts where w: "worklist arg = Inr cmds"
    and s: "s = run_events rfn (connect connOpts cmds) t"
    by (auto simp: initial_def)
  have b: "inv_basic rfn s" unfolding s by (rule inv_basic_run)
  have inv: "inv_loop t s" unfolding s by (rule inv_loop_run [OF assms(1)])
  have f: "inv_final t s" unfolding s by (rule inv_final_run [OF assms(1)])
  have cm: "commands s = cmds" unfolding s by (simp add: connect_def initial_def)
  from inv_finalD(1) [OF f] assms(3) have fin: "loop s = Finished" by auto
  note F = inv_finalD(2) [OF f fin]
  from F have sr: "summary_results s = results s" by (simp add: summary_results_def)
  from b cm have cc: "commandCount (execResult s) = length cmds"
    and li: "length (iterations s) \<le> length cmds"
    by (simp_all add: inv_basic_def)
  from results_in_order [OF inv b] cm
  have ord: "map command (results s) = take (length (results s)) cmds" by simp
  from w cc F sr li ord length_filter_success [of "results s"] show ?thesis
    by auto
qed

theorem summary_counts_witness:
  "transport_contract
     [Ready, Tick, ExecCallback 0 JNull, StreamData 0 ''out'', StreamClose 0 (JNumber 0),
      Continue, Tick, ExecCallback 1 JNull, StderrData 1 ''no'', StreamClose 1 (JNumber 2),
      Tick] \<and>
   (\<exists>s. run (\<lambda>p. Inl ''ENOENT'') (\<lambda>k. 0 < k)
            \<lparr> this_host = JString ''h'', this_port = JNumber 22, this_username = JString ''u'',
              this_password = JString ''pw'', this_privateKey = JUndefined,
              this_privateKeyData = JUndefined \<rparr>
            (JArray [JString ''ls'', JString ''false'', JString ''pwd''])
            [Ready, Tick, ExecCallback 0 JNull, StreamData 0 ''out'', StreamClose 0 (JNumber 0),
             Continue, Tick, ExecCallback 1 JNull, StderrData 1 ''no'',
             StreamClose 1 (JNumber 2), Tick]
          = Inr (\<lparr> this_host = JString ''h'', this_port = JNumber 22,
                   this_username = JString ''u'', this_password = JString ''pw'',
                   this_privateKey = JUndefined, this_privateKeyData = JUndefined \<rparr>, [], s) \<and>
        outcome s = Fulfilled \<and>
        commandCount (execResult s) = 3 \<and>
        successCount (execResult s) + failureCount (execResult s) = length (summary_results s) \<and>
        length (summary_results s) \<le> commandCount (execResult s) \<and>
        map command (summary_results s) = [JString ''ls'', JString ''false''])"
proof -
  let ?t = "[Ready, Tick, ExecCallback 0 JNull, StreamData 0 ''out'', StreamClose 0 (JNumber 0),
      Continue, Tick, ExecCallback 1 JNull, StderrData 1 ''no'', StreamClose 1 (JNumber 2),
      Tick]"
  let ?c = "\<lparr> this_host = JString ''h'', this_port = JNumber 22, this_username = JString ''u'',
              this_password = JString ''pw'', this_privateKey = JUndefined,
              this_privateKeyData = JUndefined \<rparr>"
  let ?arg = "JArray [JString ''ls'', JString ''false'', JString ''pwd'']"
  have h1: "transport_contract ?t"
    by (simp add: transport_contract_def)
  obtain s where h2: "run (\<lambda>p. Inl ''ENOENT'') (\<lambda>k. 0 < k) ?c ?arg ?t = Inr (?c, [], s)"
    and h3: "outcome s = Fulfilled" and h4: "length (summary_results s) = 2"
    by (simp add: eval_defs)
  from summary_counts [OF h1 h2 h3] h1 h2 h3 h4 show ?thesis
    by (auto simp: worklist_def)
qed


section \<open>Closing the session\<close>





section \<open>Failures\<close>

lemma step_length_results: "length (results s) \<le> length (results (step rfn s e))"
  by (cases e)
     (auto simp: advance_def submit_def finish_def Let_def
           split: option.splits promise.splits)

lemma step_result_fields:
  assumes "r < length (results s)" and "\<And>code. e \<noteq> StreamClose r code"
  shows "success (results (step rfn s e) ! r) = success (results s ! r)
         \<and> exitCode (results (step rfn s e) ! r) = exitCode (results s ! r)
         \<and> error (results (step rfn s e) ! r) = error (results s ! r)
         \<and> command (results (step rfn s e) ! r) = command (results s ! r)"
proof (cases e)
  case (StreamClose r' code)
  with assms(2) have "r' \<noteq> r" by auto
  with StreamClose show ?thesis
    by (auto split: option.splits)
qed (use assms(1) in \<open>auto simp: advance_def submit_def finish_def Let_def nth_append
       split: option.splits promise.splits\<close>)

lemma run_result_fields:
  assumes "r < length (results s)" and "r \<notin> set (closes t)"
  shows "r < length (results (run_events rfn s t))
         \<and> success (results (run_events rfn s t) ! r) = success (results s ! r)
         \<and> exitCode (results (run_events rfn s t) ! r) = exitCode (results s ! r)
         \<and> error (results (run_events rfn s t) ! r) = error (results s ! r)
         \<and> command (results (run_events rfn s t) ! r) = command (results s ! r)"
  using assms(2)
proof (induction t rule: rev_induct)
  case Nil
  with assms(1) show ?case by simp
next
  case (snoc e t)
  from snoc.prems have nc: "r \<notin> set (closes t)" and ne: "\<And>code. e \<noteq> StreamClose r code"
    by auto
  note ih = snoc.IH [OF nc]
  from ih step_length_results [of "run_events rfn s t" rfn e]
  have "r < length (results (step rfn (run_events rfn s t) e))" by simp
  with step_result_fields [OF _ ne, of "run_events rfn s t" rfn] ih show ?case
    by (simp add: run_events_snoc)
qed

lemma step_no_stream:
  assumes "r < length (results s)" and "r < length (streams s)" and "streams s ! r = None"
  shows "r < length (results (step rfn s e)) \<and> r < length (streams (step rfn s e)) \<and>
         streams (step rfn s e) ! r = None \<and> results (step rfn s e) ! r = results s ! r"
proof (cases e)
  case (StreamData r' data)
  with assms show ?thesis
    by (cases "r' = r") (auto simp: stream_owner_def split: option.splits)
next
  case (StderrData r' data)
  with assms show ?thesis
    by (cases "r' = r") (auto simp: stream_owner_def split: option.splits)
next
  case (StreamClose r' code)
  with assms show ?thesis
    by (cases "r' = r") (auto simp: stream_owner_def split: option.splits)
qed (use assms in \<open>auto simp: advance_def submit_def finish_def Let_def nth_append
       split: option.splits promise.splits\<close>)

lemma run_no_stream:
  assumes "r < length (results s)" and "r < length (streams s)" and "streams s ! r = None"
  shows "r < length (results (run_events rfn s t)) \<and> r < length (streams (run_events rfn s t)) \<and>
         streams (run_events rfn s t) ! r = None \<and>
         results (run_events rfn s t) ! r = results s ! r"
proof (induction t rule: rev_induct)
  case Nil
  with assms show ?case by simp
next
  case (snoc e t)
  then show ?case
    using step_no_stream [of r "run_events rfn s t" rfn e]
    by (simp add: run_events_snoc)
qed

lemma transport_contract_append:
  assumes "transport_contract (t1 @ t2)"
  shows "transport_contract t1"
    and "set (callbacks t1) \<inter> set (callbacks t2) = {}"
    and "set (closes t1) \<inter> set (closes t2) = {}"
  using assms by (auto simp: transport_contract_def)

lemma failure_is_last:
  assumes inv: "inv_loop t s" and r: "r < length (results s)"
    and f: "\<not> success (results s ! r)"
  shows "length (results s) = Suc r" and "length (iterations s) = Suc r"
proof -
  note D = inv_loopD [OF inv]
  from D(8) [OF r f] D(5) [of r] have "\<not> Suc r < length (iterations s)" by auto
  with r D(1) show "length (results s) = Suc r" "length (iterations s) = Suc r"
    by simp_all
qed

lemma close_nonzero_recorded:
  assumes c: "transport_contract (t1 @ StreamClose r code # t2)"
    and own: "stream_owner (run_events rfn s0 t1) r \<noteq> None"
    and code: "code \<noteq> JNumber 0"
  shows "r < length (results (run_events rfn s0 (t1 @ StreamClose r code # t2)))"
    and "\<not> success (results (run_events rfn s0 (t1 @ StreamClose r code # t2)) ! r)"
    and "exitCode (results (run_events rfn s0 (t1 @ StreamClose r code # t2)) ! r) = code"
    and "error (results (run_events rfn s0 (t1 @ StreamClose r code # t2)) ! r) = nonZeroExit"
proof -
  define s1 where "s1 = run_events rfn s0 t1"
  define s2 where "s2 = step rfn s1 (StreamClose r code)"
  from own have r: "r < length (results s1)"
    by (simp add: s1_def stream_owner_def split: if_splits)
  from own obtain n where n: "stream_owner s1 r = Some n"
    by (auto simp: s1_def)
  from n code r have s2: "r < length (results s2)" "\<not> success (results s2 ! r)"
    "exitCode (results s2 ! r) = code" "error (results s2 ! r) = nonZeroExit"
    by (simp_all add: s2_def)
  from c have "transport_contract ((t1 @ [StreamClose r code]) @ t2)" by simp
  from transport_contract_append(3) [OF this] have nc: "r \<notin> set (closes t2)" by auto
  have eq: "run_events rfn s0 (t1 @ StreamClose r code # t2) = run_events rfn s2 t2"
    by (simp add: run_events_append s1_def s2_def)
  from run_result_fields [OF s2(1) nc, of rfn] s2 eq
  show "r < length (results (run_events rfn s0 (t1 @ StreamClose r code # t2)))"
    and "\<not> success (results (run_events rfn s0 (t1 @ StreamClose r code # t2)) ! r)"
    and "exitCode (results (run_events rfn s0 (t1 @ StreamClose r code # t2)) ! r) = code"
    and "error (results (run_events rfn s0 (t1 @ StreamClose r code # t2)) ! r) = nonZeroExit"
    by simp_all
qed

lemma start_error_recorded:
  assumes c: "transport_contract (t1 @ ExecCallback n err # t2)"
    and n: "n < length (iterations (run_events rfn (connect connOpts cmds) t1))"
    and err: "truthy err"
  shows "n < length (results (run_events rfn (connect connOpts cmds) (t1 @ ExecCallback n err # t2)))"
    and "results (run_events rfn (connect connOpts cmds) (t1 @ ExecCallback n err # t2)) ! n
           = \<lparr> command = cmds ! n, success = False, exitCode = JUndefined,
               stdout = [], stderr = [], error = err \<rparr>"
    and "streams (run_events rfn (connect connOpts cmds) (t1 @ ExecCallback n err # t2)) ! n = None"
proof -
  define s1 where "s1 = run_events rfn (connect connOpts cmds) t1"
  define s2 where "s2 = step rfn s1 (ExecCallback n err)"
  from c have c': "transport_contract ((t1 @ [ExecCallback n err]) @ t2)" by simp
  from transport_contract_append(1) [OF c']
  have c1: "transport_contract (t1 @ [ExecCallback n err])" .
  note c0 = transport_contract_snoc(1) [OF c1]
  from transport_contract_snoc(2) [OF c1] have new: "n \<notin> set (callbacks t1)" by simp
  have inv: "inv_loop t1 s1" unfolding s1_def by (rule inv_loop_run [OF c0])
  have b: "inv_basic rfn s1" unfolding s1_def by (rule inv_basic_run)
  from n have n': "n < length (iterations s1)" by (simp add: s1_def)
  note sh = callback_shape [OF inv n' new]
  from b have ls: "length (streams s1) = length (results s1)"
    and cmd: "map it_command (iterations s1) = take (length (iterations s1)) (commands s1)"
    by (simp_all add: inv_basic_def)
  have "commands s1 = cmds" by (simp add: s1_def connect_def initial_def)
  with cmd n' have ic: "it_command (iterations s1 ! n) = cmds ! n"
    by (metis nth_map nth_take)
  from n' err sh(1) ls ic
  have s2: "n < length (results s2)" "n < length (streams s2)" "streams s2 ! n = None"
    "results s2 ! n = \<lparr> command = cmds ! n, success = False, exitCode = JUndefined,
                         stdout = [], stderr = [], error = err \<rparr>"
    by (simp_all add: s2_def Let_def nth_append)
  have eq: "run_events rfn (connect connOpts cmds) (t1 @ ExecCallback n err # t2)
              = run_events rfn s2 t2"
    by (simp add: run_events_append s1_def s2_def)
  from run_no_stream [OF s2(1,2,3), of rfn t2] s2(4) eq
  show "n < length (results (run_events rfn (connect connOpts cmds) (t1 @ ExecCallback n err # t2)))"
    and "results (run_events rfn (connect connOpts cmds) (t1 @ ExecCallback n err # t2)) ! n
           = \<lparr> command = cmds ! n, success = False, exitCode = JUndefined,
               stdout = [], stderr = [], error = err \<rparr>"
    and "streams (run_events rfn (connect connOpts cmds) (t1 @ ExecCallback n err # t2)) ! n = None"
    by simp_all
qed

text \<open>
  Claim C2. Against a transport that keeps its contract, at every moment: a failed result is
  the last result and the commands submitted so far end with its command; every result
  before the last is a success with exit code 0; the submitted commands are a prefix of the
  command list; a stream that closes with a code other than 0 leaves a failed result with
  that code, and a start callback with an error leaves a failed result with that error.
\<close>

theorem first_failure_is_last:
  assumes "transport_contract t"
    and "s = run_events rfn (connect connOpts cmds) t"
  shows "(\<forall>r<length (results s). \<not> success (results s ! r) \<longrightarrow>
            Suc r = length (results s) \<and> exec_log s = take (Suc r) cmds) \<and>
         (\<forall>r. Suc r < length (results s) \<longrightarrow>
            success (results s ! r) \<and> exitCode (results s ! r) = JNumber 0) \<and>
         exec_log s = take (length (exec_log s)) cmds \<and>
         length (results s) \<le> length (exec_log s) \<and>
         (\<forall>t1 r code t2.
            t = t1 @ StreamClose r code # t2 \<and> code \<noteq> JNumber 0 \<and>
            stream_owner (run_events rfn (connect connOpts cmds) t1) r \<noteq> None \<longrightarrow>
            r < length (results s) \<and> \<not> success (results s ! r) \<and>
            exitCode (results s ! r) = code) \<and>
         (\<forall>t1 n err t2.
            t = t1 @ ExecCallback n err # t2 \<and> truthy err \<and>
            n < length (iterations (run_events rfn (connect connOpts cmds) t1)) \<longrightarrow>
            n < length (results s) \<and> \<not> success (results s ! n) \<and>
            error (results s ! n) = err)"
proof -
  have b: "inv_basic rfn s" unfolding assms(2) by (rule inv_basic_run)
  have inv: "inv_loop t s" unfolding assms(2) by (rule inv_loop_run [OF assms(1)])
  have cm: "commands s = cmds" unfolding assms(2) by (simp add: connect_def initial_def)
  note D = inv_loopD [OF inv]
  from b cm have log: "exec_log s = take (length (iterations s)) cmds"
    and ll: "length (exec_log s) = length (iterations s)"
    by (simp_all add: inv_basic_def)
  have a1: "Suc r = length (results s) \<and> exec_log s = take (Suc r) cmds"
    if "r < length (results s)" "\<not> success (results s ! r)" for r
    using failure_is_last [OF inv that] log by simp
  have a2: "success (results s ! r) \<and> exitCode (results s ! r) = JNumber 0"
    if "Suc r < length (results s)" for r
  proof -
    from that D(1) have "Suc r < length (iterations s)" by simp
    from D(7) [OF _ D(5) [OF this]] that show ?thesis by simp
  qed
  have a3: "exec_log s = take (length (exec_log s)) cmds"
    using log ll by simp
  have a4: "length (results s) \<le> length (exec_log s)"
    using D(1) ll by simp
  have a5: "r < length (results s) \<and> \<not> success (results s ! r) \<and>
            exitCode (results s ! r) = code"
    if "t = t1 @ StreamClose r code # t2 \<and> code \<noteq> JNumber 0 \<and>
        stream_owner (run_events rfn (connect connOpts cmds) t1) r \<noteq> None"
    for t1 r code t2
  proof -
    from that assms(1) have c: "transport_contract (t1 @ StreamClose r code # t2)" by simp
    from close_nonzero_recorded(1,2,3) [OF c, of rfn "connect connOpts cmds"] that assms(2)
    show ?thesis by simp
  qed
  have a6: "n < length (results s) \<and> \<not> success (results s ! n) \<and> error (results s ! n) = err"
    if "t = t1 @ ExecCallback n err # t2 \<and> truthy err \<and>
        n < length (iterations (run_events rfn (connect connOpts cmds) t1))"
    for t1 n err t2
  proof -
    from that assms(1) have c: "transport_contract (t1 @ ExecCallback n err # t2)" by simp
    from start_error_recorded(1,2) [OF c, of rfn connOpts cmds] that assms(2)
    show ?thesis by simp
  qed
  show ?thesis
    apply (intro conjI allI impI)
    subgoal for r using a1 [of r] by simp
    subgoal for r using a1 [of r] by simp
    subgoal for r using a2 [of r] by simp
    subgoal for r using a2 [of r] by simp
    subgoal by (rule a3)
    subgoal by (rule a4)
    subgoal for t1 r code t2 using a5 [of t1 r code t2] by simp
    subgoal for t1 r code t2 using a5 [of t1 r code t2] by simp
    subgoal for t1 r code t2 using a5 [of t1 r code t2] by simp
    subgoal for t1 n err t2 using a6 [of t1 n err t2] by simp
    subgoal for t1 n err t2 using a6 [of t1 n err t2] by simp
    subgoal for t1 n err t2 using a6 [of t1 n err t2] by simp
    done
qed

theorem first_failure_is_last_witness:
  "transport_contract
     [Ready, Tick, ExecCallback 0 JNull, StreamData 0 ''out'', StreamClose 0 (JNumber 0),
      Continue, Tick, ExecCallback 1 JNull, StderrData 1 ''no'', StreamClose 1 (JNumber 2),
      Tick, Continue, Tick] \<and>
   Suc 0 < length (results (run_events (\<lambda>k. 0 < k)
       (connect \<lparr> host = JString ''h'', port = JNumber 22, username = JString ''u'',
                  password = JString ''pw'', passphrase = JUndefined, privateKey = JUndefined \<rparr>
                [JString ''ls'', JString ''false'', JString ''pwd''])
       [Ready, Tick, ExecCallback 0 JNull, StreamData 0 ''out'', StreamClose 0 (JNumber 0),
        Continue, Tick, ExecCallback 1 JNull, StderrData 1 ''no'', StreamClose 1 (JNumber 2),
        Tick, Continue, Tick])) \<and>
   \<not> success (results (run_events (\<lambda>k. 0 < k)
       (connect \<lparr> host = JString ''h'', port = JNumber 22, username = JString ''u'',
                  password = JString ''pw'', passphrase = JUndefined, privateKey = JUndefined \<rparr>
                [JString ''ls'', JString ''false'', JString ''pwd''])
       [Ready, Tick, ExecCallback 0 JNull, StreamData 0 ''out'', StreamClose 0 (JNumber 0),
        Continue, Tick, ExecCallback 1 JNull, StderrData 1 ''no'', StreamClose 1 (JNumber 2),
        Tick, Continue, Tick]) ! Suc 0) \<and>
   exec_log (run_events (\<lambda>k. 0 < k)
       (connect \<lparr> host = JString ''h'', port = JNumber 22, username = JString ''u'',
                  password = JString ''pw'', passphrase = JUndefined, privateKey = JUndefined \<rparr>
                [JString ''ls'', JString ''false'', JString ''pwd''])
       [Ready, Tick, ExecCallback 0 JNull, StreamData 0 ''out'', StreamClose 0 (JNumber 0),
        Continue, Tick, ExecCallback 1 JNull, StderrData 1 ''no'', StreamClose 1 (JNumber 2),
        Tick, Continue, Tick])
     = [JString ''ls'', JString ''false'']"
proof -
  let ?t = "[Ready, Tick, ExecCallback 0 JNull, StreamData 0 ''out'', StreamClose 0 (JNumber 0),
      Continue, Tick, ExecCallback 1 JNull, StderrData 1 ''no'', StreamClose 1 (JNumber 2),
      Tick, Continue, Tick]"
  let ?connOpts = "\<lparr> host = JString ''h'', port = JNumber 22, username = JString ''u'',
      password = JString ''pw'', passphrase = JUndefined, privateKey = JUndefined \<rparr>"
  let ?cmds = "[JString ''ls'', JString ''false'', JString ''pwd'']"
  define s where "s = run_events (\<lambda>k. 0 < k) (connect ?connOpts ?cmds) ?t"
  have h1: "transport_contract ?t"
    by (simp add: transport_contract_def)
  have f: "Suc 0 < length (results s)" "\<not> success (results s ! Suc 0)"
    by (simp_all add: s_def eval_defs)
  note first = first_failure_is_last [OF h1 s_def, THEN conjunct1, rule_format, OF f]
  then have "exec_log s = [JString ''ls'', JString ''false'']"
    by simp
  with h1 f show ?thesis
    unfolding s_def [symmetric] by (intro conjI)
qed

lemma loop_changes_at_Tick:
  "loop s \<noteq> NotStarted \<Longrightarrow> e \<noteq> Tick \<Longrightarrow> loop (step rfn s e) = loop s"
  by (cases e) (auto simp: Let_def split: option.splits)

lemma aborted_loop_finishes:
  assumes "transport_contract (t1 @ ExecCallback n err # t2)"
    and "truthy err"
    and "n < length (iterations (run_events rfn (connect connOpts cmds) t1))"
  shows "loop (run_events rfn (connect connOpts cmds) (t1 @ ExecCallback n err # t2)) = Finished \<or>
         (loop (run_events rfn (connect connOpts cmds) (t1 @ ExecCallback n err # t2)) = Running \<and>
          Tick \<notin> set t2)"
  using assms(1)
proof (induction t2 rule: rev_induct)
  case Nil
  define s1 where "s1 = run_events rfn (connect connOpts cmds) t1"
  have "inv_basic rfn s1" unfolding s1_def by (rule inv_basic_run)
  with assms(3) have "loop s1 \<noteq> NotStarted"
    by (auto simp: inv_basic_def s1_def)
  moreover have "loop (step rfn s1 (ExecCallback n err)) = loop s1"
    by (simp add: Let_def)
  ultimately show ?case
    by (cases "loop s1") (simp_all add: run_events_snoc s1_def)
next
  case (snoc e t2)
  let ?t = "t1 @ ExecCallback n err # t2"
  define s where "s = run_events rfn (connect connOpts cmds) ?t"
  from snoc.prems have c': "transport_contract (?t @ [e])" by simp
  note c = transport_contract_snoc(1) [OF c']
  have eq: "run_events rfn (connect connOpts cmds) (t1 @ ExecCallback n err # t2 @ [e])
              = step rfn s e"
    using run_events_snoc [of rfn "connect connOpts cmds" ?t e] by (simp add: s_def)
  from snoc.IH [OF c] have ih: "loop s = Finished \<or> (loop s = Running \<and> Tick \<notin> set t2)"
    by (simp add: s_def)
  show ?case
  proof (cases "loop s = Finished")
    case True
    with loop_stays_finished [of s rfn e] eq show ?thesis by simp
  next
    case False
    with ih have run: "loop s = Running" and nt: "Tick \<notin> set t2" by simp_all
    show ?thesis
    proof (cases "e = Tick")
      case False
      with loop_changes_at_Tick [of s e rfn] run nt eq show ?thesis by simp
    next
      case True
      have inv: "inv_loop ?t s" unfolding s_def by (rule inv_loop_run [OF c])
      note rec = start_error_recorded [OF c assms(3,2)]
      from rec(1) have n: "n < length (results s)" by (simp add: s_def)
      from rec(2) have fl: "\<not> success (results s ! n)" by (simp add: s_def)
      note last = failure_is_last [OF inv n fl]
      from inv_loopD(8) [OF inv n fl] obtain err' where
        "settled (iterations s ! n) = Rejected err'" by blast
      moreover from last(2) have ne: "iterations s \<noteq> []" by auto
      moreover from last(2) have "length (iterations s) - 1 = n" by simp
      ultimately have "iterations s \<noteq> []"
        and "settled (last (iterations s)) = Rejected err'"
        by (simp_all add: last_conv_nth)
      with run have "step rfn s Tick = finish s" by simp
      with True eq show ?thesis by (simp add: finish_def)
    qed
  qed
qed

text \<open>
  Claim C6. When the start callback of a submitted command reports an error, the result
  recorded for it has \<open>success\<close> false, the error, no exit code and empty output; it stays
  the last result whatever happens afterwards, no further command is submitted, and the
  next run of the scheduler finishes the loop, after which this result is in the summary
  and, without \<open>error\<close> events, the promise is fulfilled.
\<close>

theorem start_error_result_recorded:
  assumes "transport_contract (t1 @ ExecCallback n err # t2)"
    and "truthy err"
    and "n < length (iterations (run_events rfn (connect connOpts cmds) t1))"
    and "s = run_events rfn (connect connOpts cmds) (t1 @ ExecCallback n err # t2)"
  shows "length (results s) = Suc n \<and>
         results s ! n = \<lparr> command = cmds ! n, success = False, exitCode = JUndefined,
                           stdout = [], stderr = [], error = err \<rparr> \<and>
         exec_log s = take (Suc n) cmds \<and>
         (loop s = Finished \<longrightarrow> summary_results s = results s) \<and>
         (Tick \<in> set t2 \<longrightarrow> loop s = Finished) \<and>
         (Tick \<in> set t2 \<and> error_count (t1 @ ExecCallback n err # t2) = 0
            \<longrightarrow> outcome s = Fulfilled)"
proof -
  let ?t = "t1 @ ExecCallback n err # t2"
  have b: "inv_basic rfn s" unfolding assms(4) by (rule inv_basic_run)
  have inv: "inv_loop ?t s" unfolding assms(4) by (rule inv_loop_run [OF assms(1)])
  have f: "inv_final ?t s" unfolding assms(4) by (rule inv_final_run [OF assms(1)])
  have cm: "commands s = cmds" unfolding assms(4) by (simp add: connect_def initial_def)
  note rec = start_error_recorded [OF assms(1,3,2)]
  from rec(1) have n: "n < length (results s)" by (simp add: assms(4))
  from rec(2) have r: "results s ! n = \<lparr> command = cmds ! n, success = False,
      exitCode = JUndefined, stdout = [], stderr = [], error = err \<rparr>"
    by (simp add: assms(4))
  then have fl: "\<not> success (results s ! n)" by simp
  note last = failure_is_last [OF inv n fl]
  from b cm last(2) have log: "exec_log s = take (Suc n) cmds"
    by (simp add: inv_basic_def)
  have sm: "summary_results s = results s" if "loop s = Finished"
    using inv_finalD(2) [OF f that] by (simp add: summary_results_def)
  from aborted_loop_finishes [OF assms(1,2,3)]
  have fin: "loop s = Finished" if "Tick \<in> set t2"
    using that by (auto simp: assms(4))
  have out: "outcome s = Fulfilled"
    if "Tick \<in> set t2 \<and> error_count ?t = 0"
    using inv_finalD(6) [OF f] fin that by simp
  show ?thesis
    apply (intro conjI impI)
    subgoal by (rule last(1))
    subgoal by (rule r)
    subgoal by (rule log)
    subgoal using sm by simp
    subgoal using fin by simp
    subgoal using out by simp
    done
qed

theorem start_error_result_recorded_witness:
  "transport_contract ([Ready, Tick] @ ExecCallback 0 (JError ''no channel'') # [Tick]) \<and>
   truthy (JError ''no channel'') \<and>
   0 < length (iterations (run_events (\<lambda>k. True)
         (connect \<lparr> host = JString ''h'', port = JNumber 22, username = JString ''u'',
                    password = JString ''pw'', passphrase = JUndefined,
                    privateKey = JUndefined \<rparr>
                  [JString ''ls'', JString ''pwd''])
         [Ready, Tick])) \<and>
   length (results (run_events (\<lambda>k. True)
         (connect \<lparr> host = JString ''h'', port = JNumber 22, username = JString ''u'',
                    password = JString ''pw'', passphrase = JUndefined,
                    privateKey = JUndefined \<rparr>
                  [JString ''ls'', JString ''pwd''])
         ([Ready, Tick] @ ExecCallback 0 (JError ''no channel'') # [Tick]))) = Suc 0 \<and>
   results (run_events (\<lambda>k. True)
         (connect \<lparr> host = JString ''h'', port = JNumber 22, username = JString ''u'',
                    password = JString ''pw'', passphrase = JUndefined,
                    privateKey = JUndefined \<rparr>
                  [JString ''ls'', JString ''pwd''])
         ([Ready, Tick] @ ExecCallback 0 (JError ''no channel'') # [Tick])) ! 0
     = \<lparr> command = JString ''ls'', success = False, exitCode = JUndefined,
         stdout = [], stderr = [], error = JError ''no channel'' \<rparr> \<and>
   outcome (run_events (\<lambda>k. True)
         (connect \<lparr> host = JString ''h'', port = JNumber 22, username = JString ''u'',
                    password = JString ''pw'', passphrase = JUndefined,
                    privateKey = JUndefined \<rparr>
                  [JString ''ls'', JString ''pwd''])
         ([Ready, Tick] @ ExecCallback 0 (JError ''no channel'') # [Tick])) = Fulfilled"
proof -
  let ?connOpts = "\<lparr> host = JString ''h'', port = JNumber 22, username = JString ''u'',
      password = JString ''pw'', passphrase = JUndefined, privateKey = JUndefined \<rparr>"
  let ?cmds = "[JString ''ls'', JString ''pwd'']"
  let ?t = "[Ready, Tick] @ ExecCallback 0 (JError ''no channel'') # [Tick]"
  define s where "s = run_events (\<lambda>k. True) (connect ?connOpts ?cmds) ?t"
  define s1 where "s1 = run_events (\<lambda>k. True) (connect ?connOpts ?cmds) [Ready, Tick]"
  have h1: "transport_contract ?t"
    by (simp add: transport_contract_def)
  have h2: "truthy (JError ''no channel'')"
    by simp
  have h3: "0 < length (iterations s1)"
    by (simp add: s1_def eval_defs)
  have e: "error_count ?t = 0" and tk: "Tick \<in> set [Tick]"
    by (simp_all add: error_count_def)
  note th = start_error_result_recorded [OF h1 h2 h3 [unfolded s1_def] s_def]
  from th have a: "length (results s) = Suc 0" by (elim conjE)
  from th have b: "results s ! 0 = \<lparr> command = JString ''ls'', success = False,
      exitCode = JUndefined, stdout = [], stderr = [], error = JError ''no channel'' \<rparr>"
    by simp
  from th e tk have c: "outcome s = Fulfilled" by simp
  from h1 h2 h3 a b c show ?thesis
    unfolding s_def [symmetric] s1_def [symmetric] by (intro conjI)
qed

section \<open>Waiting for the transport\<close>

lemma continue_after_close_mono:
  "continue_after_close i t \<Longrightarrow> continue_after_close i (t @ u)"
  unfolding continue_after_close_def
  by (induction t) auto

lemma continue_after_close_snoc:
  "StreamClose i (JNumber 0) \<in> set t \<Longrightarrow> continue_after_close i (t @ [Continue])"
  unfolding continue_after_close_def
  by (induction t) auto

lemma inv_resumeD:
  assumes "inv_resume t s"
  shows "\<And>n. finishMethod s = Some n \<Longrightarrow> StreamClose n (JNumber 0) \<in> set t"
    and "\<And>n. n < length (iterations s) \<Longrightarrow> settled (iterations s ! n) = Fulfilled \<Longrightarrow>
           \<not> callNext (iterations s ! n) \<Longrightarrow> continue_after_close n t"
  using assms unfolding inv_resume_def by blast+

lemma inv_resumeI:
  assumes "\<And>n. finishMethod s = Some n \<Longrightarrow> StreamClose n (JNumber 0) \<in> set t"
    and "\<And>n. n < length (iterations s) \<Longrightarrow> settled (iterations s ! n) = Fulfilled \<Longrightarrow>
           \<not> callNext (iterations s ! n) \<Longrightarrow> continue_after_close n t"
  shows "inv_resume t s"
  using assms unfolding inv_resume_def by blast

lemma inv_resume_same:
  assumes inv: "inv_resume t s"
    and fm: "finishMethod s' = finishMethod s \<or> finishMethod s' = None"
    and len: "length (iterations s') = length (iterations s)"
    and it: "\<And>n. n < length (iterations s) \<Longrightarrow> settled (iterations s' ! n) = Fulfilled \<Longrightarrow>
               \<not> callNext (iterations s' ! n) \<Longrightarrow>
               settled (iterations s ! n) = Fulfilled \<and> \<not> callNext (iterations s ! n)"
  shows "inv_resume (t @ [e]) s'"
proof (rule inv_resumeI)
  fix n assume "finishMethod s' = Some n"
  with fm have "finishMethod s = Some n" by auto
  from inv_resumeD(1) [OF inv this] show "StreamClose n (JNumber 0) \<in> set (t @ [e])" by simp
next
  fix n assume n: "n < length (iterations s')"
    and f: "settled (iterations s' ! n) = Fulfilled" "\<not> callNext (iterations s' ! n)"
  from n len have n': "n < length (iterations s)" by simp
  from it [OF n' f] inv_resumeD(2) [OF inv n']
  show "continue_after_close n (t @ [e])" by (simp add: continue_after_close_mono)
qed

lemma inv_resume_connect: "inv_resume [] (connect connOpts cmds)"
  by (simp add: inv_resume_def connect_def initial_def)

lemma inv_resume_Continue:
  assumes inv: "inv_resume t s"
  shows "inv_resume (t @ [Continue]) (step rfn s Continue)"
proof (cases "loop s \<noteq> NotStarted \<and> finishMethod s \<noteq> None")
  case False
  then have "step rfn s Continue = s" by auto
  moreover have "inv_resume (t @ [Continue]) s"
    by (rule inv_resume_same [OF inv]) simp_all
  ultimately show ?thesis by simp
next
  case True
  then obtain m where m: "finishMethod s = Some m" by auto
  with True have st: "step rfn s Continue
      = s\<lparr>iterations := resolve_at m (iterations s), finishMethod := None\<rparr>"
    by simp
  show ?thesis
    unfolding st
  proof (rule inv_resumeI)
    fix n
    assume n: "n < length (iterations (s\<lparr>iterations := resolve_at m (iterations s), finishMethod := None\<rparr>))"
      and f: "settled (iterations (s\<lparr>iterations := resolve_at m (iterations s), finishMethod := None\<rparr>) ! n) = Fulfilled"
        "\<not> callNext (iterations (s\<lparr>iterations := resolve_at m (iterations s), finishMethod := None\<rparr>) ! n)"
    from n have n': "n < length (iterations s)" by simp
    from f n' have cn: "\<not> callNext (iterations s ! n)"
      and se: "(n = m \<and> settled (iterations s ! m) = Pending) \<or> settled (iterations s ! n) = Fulfilled"
      by (auto simp: nth_resolve_at split: if_splits)
    from se show "continue_after_close n (t @ [Continue])"
    proof
      assume "n = m \<and> settled (iterations s ! m) = Pending"
      with inv_resumeD(1) [OF inv m] show ?thesis
        by (simp add: continue_after_close_snoc)
    next
      assume "settled (iterations s ! n) = Fulfilled"
      from inv_resumeD(2) [OF inv n' this cn] show ?thesis
        by (rule continue_after_close_mono)
    qed
  qed simp
qed

lemma inv_resume_ExecCallback:
  assumes inv: "inv_resume t s"
  shows "inv_resume (t @ [ExecCallback n err]) (step rfn s (ExecCallback n err))"
  by (rule inv_resume_same [OF inv])
     (auto simp: Let_def nth_reject_at split: if_splits)

lemma inv_resume_StreamClose:
  assumes inv: "inv_resume t s" and l: "inv_loop t s" and new: "r \<notin> set (closes t)"
  shows "inv_resume (t @ [StreamClose r code]) (step rfn s (StreamClose r code))"
proof (cases "stream_owner s r")
  case None
  then have "step rfn s (StreamClose r code) = s" by simp
  moreover have "inv_resume (t @ [StreamClose r code]) s"
    by (rule inv_resume_same [OF inv]) simp_all
  ultimately show ?thesis by simp
next
  case (Some n)
  note sh = close_shape [OF l Some new]
  show ?thesis
  proof (cases "code = JNumber 0 \<and> \<not> callNext (iterations s ! r)")
    case False
    show ?thesis
      by (rule inv_resume_same [OF inv])
         (use Some sh(1) False in \<open>auto simp: nth_reject_at nth_resolve_at split: if_splits\<close>)
  next
    case True
    with Some sh(1) have st: "step rfn s (StreamClose r code)
        = s\<lparr>results := (results s)[r := (results s ! r)\<lparr>exitCode := code\<rparr>],
            finishMethod := Some r\<rparr>"
      by simp
    show ?thesis
      unfolding st
    proof (rule inv_resumeI)
      fix n'
      assume "finishMethod (s\<lparr>results := (results s)[r := (results s ! r)\<lparr>exitCode := code\<rparr>],
            finishMethod := Some r\<rparr>) = Some n'"
      with True show "StreamClose n' (JNumber 0) \<in> set (t @ [StreamClose r code])" by simp
    next
      fix n'
      assume "n' < length (iterations (s\<lparr>results := (results s)[r := (results s ! r)\<lparr>exitCode := code\<rparr>],
            finishMethod := Some r\<rparr>))"
        and "settled (iterations (s\<lparr>results := (results s)[r := (results s ! r)\<lparr>exitCode := code\<rparr>],
            finishMethod := Some r\<rparr>) ! n') = Fulfilled"
        and "\<not> callNext (iterations (s\<lparr>results := (results s)[r := (results s ! r)\<lparr>exitCode := code\<rparr>],
            finishMethod := Some r\<rparr>) ! n')"
      with inv_resumeD(2) [OF inv, of n']
      show "continue_after_close n' (t @ [StreamClose r code])"
        by (simp add: continue_after_close_mono)
    qed
  qed
qed

lemma inv_resume_Tick:
  assumes inv: "inv_resume t s"
  shows "inv_resume (t @ [Tick]) (step rfn s Tick)"
proof -
  from step_Tick_cases [of rfn s]
  consider (same) "step rfn s Tick = s"
    | (fin) "step rfn s Tick = finish s"
    | (sub) "step rfn s Tick = submit rfn s"
    by blast
  then show ?thesis
  proof cases
    case same
    show ?thesis unfolding same by (rule inv_resume_same [OF inv]) simp_all
  next
    case fin
    show ?thesis unfolding fin
      by (rule inv_resume_same [OF inv]) (simp_all add: finish_def)
  next
    case sub
    show ?thesis unfolding sub
    proof (rule inv_resumeI)
      fix n
      assume n: "n < length (iterations (submit rfn s))"
        and f: "settled (iterations (submit rfn s) ! n) = Fulfilled"
          "\<not> callNext (iterations (submit rfn s) ! n)"
      from n f(1) have n': "n < length (iterations s)"
        by (cases "n = length (iterations s)") (auto simp: submit_def Let_def)
      with f have "settled (iterations s ! n) = Fulfilled" "\<not> callNext (iterations s ! n)"
        by (simp_all add: submit_def Let_def nth_append)
      from inv_resumeD(2) [OF inv n' this] show "continue_after_close n (t @ [Tick])"
        by (rule continue_after_close_mono)
    qed (simp add: submit_def Let_def)
  qed
qed

lemma inv_resume_step:
  assumes "inv_resume t s" and "inv_loop t s" and "transport_contract (t @ [e])"
  shows "inv_resume (t @ [e]) (step rfn s e)"
proof (cases e)
  case Ready
  show ?thesis unfolding Ready
    by (rule inv_resume_same [OF assms(1)]) (simp_all split: if_splits)
next
  case (Error err)
  show ?thesis unfolding Error by (rule inv_resume_same [OF assms(1)]) simp_all
next
  case Continue
  show ?thesis unfolding Continue by (rule inv_resume_Continue [OF assms(1)])
next
  case (ExecCallback n err)
  show ?thesis unfolding ExecCallback by (rule inv_resume_ExecCallback [OF assms(1)])
next
  case (StreamData r data)
  show ?thesis unfolding StreamData
    by (rule inv_resume_same [OF assms(1)]) (simp_all split: option.splits)
next
  case (StderrData r data)
  show ?thesis unfolding StderrData
    by (rule inv_resume_same [OF assms(1)]) (simp_all split: option.splits)
next
  case (StreamClose r code)
  from transport_contract_snoc(3) [OF assms(3) StreamClose]
  show ?thesis unfolding StreamClose by (rule inv_resume_StreamClose [OF assms(1,2)])
next
  case Tick
  show ?thesis unfolding Tick by (rule inv_resume_Tick [OF assms(1)])
qed

lemma inv_resume_run:
  "transport_contract t \<Longrightarrow> inv_resume t (run_events rfn (connect connOpts cmds) t)"
proof (induction t rule: rev_induct)
  case Nil
  show ?case by (simp add: inv_resume_connect)
next
  case (snoc e t)
  from snoc.prems have c: "transport_contract t" by (rule transport_contract_snoc(1))
  from inv_resume_step [OF snoc.IH [OF c] inv_loop_run [OF c] snoc.prems]
  show ?case by (simp add: run_events_snoc)
qed

lemma step_length_iterations:
  "length (iterations (step rfn s e)) = length (iterations s) \<or>
   (e = Tick \<and> step rfn s e = submit rfn s \<and>
    (iterations s = [] \<or> settled (last (iterations s)) = Fulfilled))"
proof (cases e)
  case Tick
  with step_Tick_cases [of rfn s] show ?thesis
    by (auto simp: finish_def)
qed (auto simp: Let_def split: option.splits)

lemma step_Continue_noop: "finishMethod s = None \<Longrightarrow> step rfn s Continue = s"
  by simp

lemma step_Continue_exec_log: "exec_log (step rfn s Continue) = exec_log s"
  by (auto simp: exec_log_def split: option.splits)

text \<open>
  Claim C4. Against a transport that keeps its contract: a \<open>continue\<close> that finds no
  resume action installed changes nothing, so inserting one at such a moment leaves the
  whole run as it was; when command \<open>i\<close> is the last one submitted and its \<open>exec\<close>
  returned false, the only event that can submit command \<open>i + 1\<close> is a run of the
  scheduler that comes after a \<open>continue\<close> that itself came after the stream of command
  \<open>i\<close> closed with exit code 0; the commands submitted are always a prefix of the command
  list (none twice, none skipped); and a \<open>continue\<close> submits nothing by itself.
\<close>

theorem continue_gates_next_command:
  assumes "transport_contract (t @ [e])"
    and "s = run_events rfn (connect connOpts cmds) t"
  shows "(finishMethod s = None \<longrightarrow> step rfn s Continue = s) \<and>
         (\<forall>i. length (iterations s) = Suc i \<and> \<not> rfn i \<and>
              length (iterations (step rfn s e)) \<noteq> Suc i \<longrightarrow>
              e = Tick \<and> continue_after_close i t \<and>
              exec_log (step rfn s e) = take (Suc (Suc i)) cmds) \<and>
         (\<forall>t1 t2. t = t1 @ t2 \<and>
              finishMethod (run_events rfn (connect connOpts cmds) t1) = None \<longrightarrow>
              run_events rfn (connect connOpts cmds) (t1 @ Continue # t2) = s) \<and>
         exec_log (step rfn s e) = take (length (exec_log (step rfn s e))) cmds \<and>
         (e = Continue \<longrightarrow> exec_log (step rfn s e) = exec_log s)"
proof -
  note c = transport_contract_snoc(1) [OF assms(1)]
  have b: "inv_basic rfn s" unfolding assms(2) by (rule inv_basic_run)
  have j: "inv_resume t s" unfolding assms(2) by (rule inv_resume_run [OF c])
  have b': "inv_basic rfn (step rfn s e)" by (rule inv_basic_step [OF b])
  have cm: "commands (step rfn s e) = cmds"
    using commands_run [of rfn "connect connOpts cmds" "t @ [e]"]
    by (simp add: run_events_snoc assms(2) connect_def initial_def)
  from b' cm have log: "exec_log (step rfn s e) = take (length (iterations (step rfn s e))) cmds"
    and ll: "length (exec_log (step rfn s e)) = length (iterations (step rfn s e))"
    by (simp_all add: inv_basic_def)
  have a2: "e = Tick \<and> continue_after_close i t \<and>
            exec_log (step rfn s e) = take (Suc (Suc i)) cmds"
    if h: "length (iterations s) = Suc i \<and> \<not> rfn i \<and>
           length (iterations (step rfn s e)) \<noteq> Suc i" for i
  proof -
    from h have li: "length (iterations s) = Suc i" and nr: "\<not> rfn i" by simp_all
    from step_length_iterations [of rfn s e] h
    have tk: "e = Tick" and sub: "step rfn s e = submit rfn s"
      and lf: "iterations s = [] \<or> settled (last (iterations s)) = Fulfilled"
      by auto
    from li have ne: "iterations s \<noteq> []" and "length (iterations s) - 1 = i" by auto
    with lf have f: "settled (iterations s ! i) = Fulfilled"
      by (simp add: last_conv_nth)
    from b have "map callNext (iterations s) ! i = map rfn [0..<length (iterations s)] ! i"
      by (simp add: inv_basic_def)
    moreover from li have "map callNext (iterations s) ! i = callNext (iterations s ! i)"
      by simp
    moreover from li have "map rfn [0..<length (iterations s)] ! i = rfn i"
      by (simp only: nth_map length_upt nth_upt) simp
    ultimately have cn: "\<not> callNext (iterations s ! i)" using nr by simp
    from li have "i < length (iterations s)" by simp
    from inv_resumeD(2) [OF j this f cn] have "continue_after_close i t" .
    moreover from sub li have "length (iterations (step rfn s e)) = Suc (Suc i)"
      by (simp add: submit_def Let_def)
    ultimately show ?thesis using tk log by simp
  qed
  have a3: "run_events rfn (connect connOpts cmds) (t1 @ Continue # t2) = s"
    if "t = t1 @ t2 \<and> finishMethod (run_events rfn (connect connOpts cmds) t1) = None"
    for t1 t2
    using that by (simp add: run_events_append assms(2))
  show ?thesis
    apply (intro conjI allI impI)
    subgoal by simp
    subgoal for i by (drule a2) blast
    subgoal for i by (drule a2) blast
    subgoal for i by (drule a2) blast
    subgoal for t1 t2 by (rule a3)
    subgoal using log ll by simp
    subgoal by (simp only: step_Continue_exec_log)
    done
qed

theorem continue_gates_next_command_witness:
  "transport_contract
     ([Ready, Tick, Continue, ExecCallback 0 JNull, Continue, StreamClose 0 (JNumber 0),
       Tick, Continue] @ [Tick]) \<and>
   length (iterations (run_events (\<lambda>k. False)
       (connect \<lparr> host = JString ''h'', port = JNumber 22, username = JString ''u'',
                  password = JString ''pw'', passphrase = JUndefined, privateKey = JUndefined \<rparr>
                [JString ''ls'', JString ''pwd''])
       [Ready, Tick, Continue, ExecCallback 0 JNull, Continue, StreamClose 0 (JNumber 0),
        Tick, Continue])) = Suc 0 \<and>
   length (iterations (step (\<lambda>k. False) (run_events (\<lambda>k. False)
       (connect \<lparr> host = JString ''h'', port = JNumber 22, username = JString ''u'',
                  password = JString ''pw'', passphrase = JUndefined, privateKey = JUndefined \<rparr>
                [JString ''ls'', JString ''pwd''])
       [Ready, Tick, Continue, ExecCallback 0 JNull, Continue, StreamClose 0 (JNumber 0),
        Tick, Continue]) Tick)) = Suc (Suc 0) \<and>
   continue_after_close 0
     [Ready, Tick, Continue, ExecCallback 0 JNull, Continue, StreamClose 0 (JNumber 0),
      Tick, Continue] \<and>
   exec_log (step (\<lambda>k. False) (run_events (\<lambda>k. False)
       (connect \<lparr> host = JString ''h'', port = JNumber 22, username = JString ''u'',
                  password = JString ''pw'', passphrase = JUndefined, privateKey = JUndefined \<rparr>
                [JString ''ls'', JString ''pwd''])
       [Ready, Tick, Continue, ExecCallback 0 JNull, Continue, StreamClose 0 (JNumber 0),
        Tick, Continue]) Tick)
     = [JString ''ls'', JString ''pwd'']"
proof -
  let ?connOpts = "\<lparr> host = JString ''h'', port = JNumber 22, username = JString ''u'',
      password = JString ''pw'', passphrase = JUndefined, privateKey = JUndefined \<rparr>"
  let ?cmds = "[JString ''ls'', JString ''pwd'']"
  let ?t = "[Ready, Tick, Continue, ExecCallback 0 JNull, Continue, StreamClose 0 (JNumber 0),
      Tick, Continue]"
  define s where "s = run_events (\<lambda>k. False) (connect ?connOpts ?cmds) ?t"
  have h1: "transport_contract (?t @ [Tick])"
    by (simp add: transport_contract_def)
  have l1: "length (iterations s) = Suc 0"
    and l2: "length (iterations (step (\<lambda>k. False) s Tick)) = Suc (Suc 0)"
    by (simp_all add: s_def eval_defs)
  from l2 have l3: "length (iterations (step (\<lambda>k. False) s Tick)) \<noteq> Suc 0" by simp
  note th = continue_gates_next_command [OF h1 s_def, THEN conjunct2, THEN conjunct1,
      rule_format, of 0]
  from th l1 l3 have a: "continue_after_close 0 ?t"
    and b: "exec_log (step (\<lambda>k. False) s Tick) = [JString ''ls'', JString ''pwd'']"
    by simp_all
  from h1 l1 l2 a b show ?thesis
    unfolding s_def [symmetric] by (intro conjI)
qed

section \<open>Settling the promise\<close>











lemma callbacks_output_event [simp]: "callbacks (output_event k x # evs) = callbacks evs"
  by (cases x) simp_all

lemma closes_output_event [simp]: "closes (output_event k x # evs) = closes evs"
  by (cases x) simp_all

lemma output_event_not_Ready [simp]: "output_event k x \<noteq> Ready"
  by (cases x) simp_all

lemma callbacks_outputs [simp]: "callbacks (map (output_event k) out) = []"
  by (induction out) simp_all

lemma closes_outputs [simp]: "closes (map (output_event k) out) = []"
  by (induction out) simp_all

lemma ready_outputs [simp]: "filter (\<lambda>e. e = Ready) (map (output_event k) out) = []"
  by (induction out) simp_all













section \<open>Progress of the command loop\<close>

















lemma remaining_finished: "loop s = Finished \<Longrightarrow> remaining s = 0"
  by (simp add: remaining_def)





lemma loop_finish [simp]: "loop (finish s) = Finished"
  by (simp add: finish_def)












section \<open>The promise returned by run\<close>











end
